theory Spec2Isabelle
  imports Main "HOL-Library.AList"
begin

section \<open>Values\<close>

text \<open>
  The JavaScript values the code can meet. Arrays are arrays of strings: the only arrays
  the code reads are \<open>depends\<close> lists of service names. \<open>DObj\<close> is any other object;
  it has no own enumerable fields and no callable members. \<open>DFn f\<close> is a function, with
  \<open>f\<close> what is known of it: nothing (\<open>unit\<close>) where the code never calls it
  (configuration data, service values), its behaviour for a start or stop callback.
\<close>

datatype 'f jsdata =
    DUndefined
  | DNull
  | DBool bool
  | DNum int
  | DStr string
  | DArr "string list"
  | DObj
  | DFn 'f

text \<open>
  An object with named fields is an association list in the enumeration order of its keys.
  An entry of the configuration or of the functions object is such an object, or any other
  value.
\<close>

type_synonym 'f object = "(string \<times> 'f jsdata) list"

datatype 'f entry = Record "'f object" | Plain "'f jsdata"

type_synonym data = "unit jsdata"
type_synonym config = "(string \<times> unit entry) list"
type_synonym services = "(string \<times> data) list"

datatype error =
    ValidationError string
  | TypeError
  | CyclicDependency
  | UnknownNode
  | Thrown data

text \<open>
  \<open>ValidationError m\<close> is the \<open>TypeError(m)\<close> that the validation functions throw with a
  message of the table \<open>errors\<close>; \<open>TypeError\<close> is the one the runtime raises itself (a
  field read on \<open>undefined\<close> or \<open>null\<close>, a call of something that is not a function);
  \<open>CyclicDependency\<close> and \<open>UnknownNode\<close> are the two errors of the topological sort;
  \<open>Thrown v\<close> is a value thrown by a start or stop callback.
\<close>

subsection \<open>Predicates of the source\<close>

fun isObject :: "'f entry \<Rightarrow> bool" where
  "isObject (Record fs) = True"
| "isObject (Plain (DArr xs)) = True"
| "isObject (Plain DObj) = True"
| "isObject (Plain v) = False"

fun isFn :: "'f jsdata \<Rightarrow> bool" where
  "isFn (DFn f) = True"
| "isFn v = False"

fun isDepends :: "'f jsdata \<Rightarrow> bool" where
  "isDepends (DArr xs) = True"
| "isDepends (DStr s) = True"
| "isDepends v = False"

text \<open>JavaScript's truthiness, as \<open>||\<close> and \<open>if\<close> read a value.\<close>

fun truthy :: "'f jsdata \<Rightarrow> bool" where
  "truthy DUndefined = False"
| "truthy DNull = False"
| "truthy (DBool b) = b"
| "truthy (DNum n) = (n \<noteq> 0)"
| "truthy (DStr s) = (s \<noteq> [])"
| "truthy v = True"

text \<open>
  Names that JavaScript treats specially. A System has the members \<open>member_names\<close>, and
  the constructor defines a getter for every key of the configuration, which replaces a
  member of the same name. Every object inherits the members \<open>inherited_names\<close> of
  \<open>Object.prototype\<close>, which \<open>o[k]\<close> finds when \<open>o\<close> has no own field \<open>k\<close>. An object
  enumerates keys that are array indices before its other keys; \<open>index_name\<close> holds of
  every such key. The definitions below read own fields, keep keys in the order of
  insertion and read the members of the System directly: they are the code's behaviour
  for \<open>plain_name\<close>s, and the statements that depend on it assume that the names are
  plain.
\<close>

definition member_names :: "string list" where
  "member_names =
     [''config'', ''_order'', ''_services'', ''_fns'', ''start'', ''stop'', ''toString'',
      ''toJSON'', ''constructor'']"

definition inherited_names :: "string list" where
  "inherited_names =
     [''constructor'', ''__defineGetter__'', ''__defineSetter__'', ''hasOwnProperty'',
      ''__lookupGetter__'', ''__lookupSetter__'', ''isPrototypeOf'', ''propertyIsEnumerable'',
      ''toString'', ''valueOf'', ''__proto__'', ''toLocaleString'']"

definition index_name :: "string \<Rightarrow> bool" where
  "index_name k = (k \<noteq> [] \<and> list_all (\<lambda>c. c \<in> set ''0123456789'') k)"

definition plain_name :: "string \<Rightarrow> bool" where
  "plain_name k =
     (k \<notin> set member_names \<and> k \<notin> set inherited_names \<and> \<not> index_name k)"

definition plain_names :: "string list \<Rightarrow> bool" where
  "plain_names ks = list_all plain_name ks"

text \<open>
  \<open>o[k]\<close> on an object: the value of its own field, \<open>undefined\<close> when there is none.
\<close>

definition field :: "'f object \<Rightarrow> string \<Rightarrow> 'f jsdata" where
  "field fs k = (case map_of fs k of None \<Rightarrow> DUndefined | Some v \<Rightarrow> v)"

text \<open>\<open>Object.keys\<close> and \<open>Object.entries\<close>.\<close>

definition keys :: "(string \<times> 'a) list \<Rightarrow> string list" where
  "keys obj = map fst obj"

text \<open>
  The values of \<open>Object.entries\<close>: the fields of a record, the elements of an array.
\<close>

fun entries :: "'f entry \<Rightarrow> 'f jsdata list" where
  "entries (Record fs) = map snd fs"
| "entries (Plain (DArr xs)) = map DStr xs"
| "entries (Plain v) = []"

section \<open>Graph resolver\<close>

text \<open>
  \<open>getProp e k\<close> is \<open>e.k\<close>, where \<open>e\<close> is the result of a lookup in an object (\<open>None\<close>
  when the object has no such key, that is \<open>undefined\<close>): reading a field of \<open>undefined\<close>
  or of \<open>null\<close> raises a TypeError, a record gives its field, any other value has no
  field of the names the code reads (\<open>depends\<close>, \<open>start\<close>, \<open>stop\<close>).
\<close>

fun getProp :: "'f entry option \<Rightarrow> string \<Rightarrow> error + 'f jsdata" where
  "getProp None k = Inl TypeError"
| "getProp (Some (Plain DUndefined)) k = Inl TypeError"
| "getProp (Some (Plain DNull)) k = Inl TypeError"
| "getProp (Some (Plain v)) k = Inr DUndefined"
| "getProp (Some (Record fs)) k = Inr (field fs k)"

text \<open>
  \<open>dependsOn\<close> returns what the source returns: a one-element array for a string, the
  value of \<open>depends\<close> itself when it is truthy, the empty array otherwise.
\<close>

definition dependsOn :: "config \<Rightarrow> string \<Rightarrow> error + data" where
  "dependsOn conf service =
     (case getProp (map_of conf service) ''depends'' of
        Inl err \<Rightarrow> Inl err
      | Inr (DStr s) \<Rightarrow> Inr (DArr [s])
      | Inr d \<Rightarrow> Inr (if truthy d then d else DArr []))"

text \<open>\<open>deps.map(dep => [dep, service])\<close>: only an array has \<open>map\<close>.\<close>

definition depEdges :: "config \<Rightarrow> string \<Rightarrow> error + (string \<times> string) list" where
  "depEdges conf service =
     (case dependsOn conf service of
        Inl err \<Rightarrow> Inl err
      | Inr (DArr ds) \<Rightarrow> Inr (map (\<lambda>dep. (dep, service)) ds)
      | Inr d \<Rightarrow> Inl TypeError)"

text \<open>\<open>flatMap\<close> over the keys, stopping at the first exception.\<close>

fun flatMap :: "('a \<Rightarrow> error + 'b list) \<Rightarrow> 'a list \<Rightarrow> error + 'b list" where
  "flatMap f [] = Inr []"
| "flatMap f (x # xs) =
     (case f x of
        Inl err \<Rightarrow> Inl err
      | Inr ys \<Rightarrow> (case flatMap f xs of Inl err \<Rightarrow> Inl err | Inr zs \<Rightarrow> Inr (ys @ zs)))"

text \<open>An edge is the two-element array \<open>[dep, service]\<close>, so \<open>isNotEmpty\<close> keeps it.\<close>

definition isNotEmpty :: "string \<times> string \<Rightarrow> bool" where
  "isNotEmpty e = (length [fst e, snd e] > 0)"

definition edges :: "config \<Rightarrow> error + (string \<times> string) list" where
  "edges conf =
     (case flatMap (depEdges conf) (keys conf) of
        Inl err \<Rightarrow> Inl err
      | Inr es \<Rightarrow> Inr (filter isNotEmpty es))"

subsection \<open>The topological sort\<close>

text \<open>
  Modelled from the spec: \<open>toposort.array\<close> is the npm package \<open>toposort\<close>, which
  \<open>index.js\<close> requires and which is not among the source files. The spec asks for a
  topological sort over the vertex set of all service names and the edge set of
  \<open>edges\<close>, that fails when the graph has a cycle, fails when an edge names an unknown
  vertex, and is deterministic. The model is the depth-first search of that package:
  an edge with an unknown end is refused first; the nodes are visited from the last
  to the first, each with its successors (in reverse order of their first edge) before
  it is written at the front of the result; meeting a node that is among its own
  predecessors is a cycle. \<open>visit\<close> takes the list of nodes that remain to be visited at
  the current level, the predecessors, and the pair of the visited nodes and the
  result so far.
\<close>

definition outgoing :: "('a \<times> 'a) list \<Rightarrow> 'a \<Rightarrow> 'a list" where
  "outgoing es n = rev (remdups (rev (map snd (filter (\<lambda>e. fst e = n) es))))"

function visit ::
  "'a list \<Rightarrow> ('a \<times> 'a) list \<Rightarrow> 'a list \<Rightarrow> 'a list \<Rightarrow> 'a list \<times> 'a list
     \<Rightarrow> error + 'a list \<times> 'a list" where
  "visit nodes es [] preds st = Inr st"
| "visit nodes es (n # todo) preds (visited, res) =
     (if n \<in> set preds then Inl CyclicDependency
      else if n \<notin> set nodes then Inl UnknownNode
      else if n \<in> set visited then visit nodes es todo preds (visited, res)
      else (case visit nodes es (rev (outgoing es n)) (n # preds) (n # visited, res) of
              Inl err \<Rightarrow> Inl err
            | Inr (visited', res') \<Rightarrow> visit nodes es todo preds (visited', n # res')))"
  by pat_completeness auto
termination
proof (relation "measures [\<lambda>(nodes, es, todo, preds, st). card (set nodes - set preds),
                           \<lambda>(nodes, es, todo, preds, st). length todo]", goal_cases)
  case 1
  show ?case by simp
next
  case (2 nodes es n todo preds visited res)
  show ?case by simp
next
  case (3 nodes es n todo preds visited res)
  have "set nodes - set (n # preds) \<subset> set nodes - set preds"
    using 3 by auto
  then have "card (set nodes - set (n # preds)) < card (set nodes - set preds)"
    by (intro psubset_card_mono) simp_all
  then show ?case by simp
next
  case (4 nodes es n todo preds visited res x2 x y)
  show ?case by simp
qed

definition toposort_array :: "'a list \<Rightarrow> ('a \<times> 'a) list \<Rightarrow> error + 'a list" where
  "toposort_array nodes es =
     (if \<exists>e \<in> set es. fst e \<notin> set nodes \<or> snd e \<notin> set nodes then Inl UnknownNode
      else (case visit nodes es (rev nodes) [] ([], []) of
              Inl err \<Rightarrow> Inl err
            | Inr (visited, res) \<Rightarrow> Inr res))"

definition sortDeps :: "config \<Rightarrow> error + string list" where
  "sortDeps conf =
     (case edges conf of
        Inl err \<Rightarrow> Inl err
      | Inr es \<Rightarrow> toposort_array (keys conf) es)"


section \<open>Lifecycle manager\<close>

subsection \<open>Callbacks, the System and the outcome of a call\<close>

text \<open>
  A start callback receives the whole configuration, a stop callback the service's value;
  both receive the object of dependency values. A callback reads and writes the world
  outside the System (\<open>'w\<close>) and returns a value (\<open>Inr\<close>) or throws one (\<open>Inl\<close>).
  Callbacks do not call back into the System.
\<close>

datatype arg = AConfig config | AValue data

type_synonym 'w callback = "arg \<Rightarrow> services \<Rightarrow> 'w \<Rightarrow> (data + data) \<times> 'w"

type_synonym 'w fns = "(string \<times> 'w callback entry) list"

text \<open>
  The trace of callback invocations, oldest first: the service, the two arguments and what
  the callback did. It is not a field of the source; it records what the source calls.
\<close>

datatype event =
    StartCalled string config services "data + data"
  | StopCalled string data services "data + data"

record 'w system =
  config :: config
  order :: "string list"
  services :: services
  fns :: "'w fns"
  world :: 'w
  events :: "event list"

text \<open>
  A call returns the System (\<open>return this\<close>) or throws; either way the System is left in
  the state given.
\<close>

datatype 'w outcome = Return "'w system" | Throw error "'w system"

fun state_of :: "'w outcome \<Rightarrow> 'w system" where
  "state_of (Return s) = s"
| "state_of (Throw err s) = s"

subsection \<open>Helpers of the source\<close>

definition nullifyVals :: "config \<Rightarrow> services" where
  "nullifyVals obj = foldl (\<lambda>acc k. AList.update k DNull acc) [] (keys obj)"

text \<open>\<open>deps.reduce\<close>: only an array has \<open>reduce\<close>.\<close>

definition collectDeps :: "data \<Rightarrow> services \<Rightarrow> error + services" where
  "collectDeps deps svcs =
     (case deps of
        DArr ds \<Rightarrow> Inr (foldl (\<lambda>acc dep. AList.update dep (field svcs dep) acc) [] ds)
      | d \<Rightarrow> Inl TypeError)"

subsection \<open>Validation\<close>

definition errors_conf_object :: string where
  "errors_conf_object = ''Service configuration entry must be an object.''"

definition errors_conf_depends :: string where
  "errors_conf_depends = ''Depends must be either an array or string.''"

definition errors_conf_behaviour :: string where
  "errors_conf_behaviour = ''Service configuration data should not contain functions.''"

definition errors_fns_object :: string where
  "errors_fns_object = ''Service function data must be an object.''"

definition errors_fns_start :: string where
  "errors_fns_start = ''Start function must be present.''"

definition errors_fns_startFn :: string where
  "errors_fns_startFn = ''Start function must be a function.''"

definition errors_fns_stop :: string where
  "errors_fns_stop = ''Stop function must be a function.''"

text \<open>
  \<open>k in v\<close> and \<open>v.k\<close> for an entry that passed \<open>isObject\<close>, for the names the code reads.
\<close>

fun has :: "'f entry \<Rightarrow> string \<Rightarrow> bool" where
  "has (Record fs) k = (k \<in> set (keys fs))"
| "has (Plain v) k = False"

fun get :: "'f entry \<Rightarrow> string \<Rightarrow> 'f jsdata" where
  "get (Record fs) k = field fs k"
| "get (Plain v) k = DUndefined"

text \<open>\<open>forEach\<close> with a callback that may throw: the first exception ends the loop.\<close>

fun forEachCheck :: "('a \<Rightarrow> error + unit) \<Rightarrow> 'a list \<Rightarrow> error + unit" where
  "forEachCheck f [] = Inr ()"
| "forEachCheck f (x # xs) = (case f x of Inl err \<Rightarrow> Inl err | Inr u \<Rightarrow> forEachCheck f xs)"

definition checkConfigEntry :: "unit entry \<Rightarrow> error + unit" where
  "checkConfigEntry v =
     (if \<not> isObject v then Inl (ValidationError errors_conf_object)
      else if has v ''depends'' \<and> \<not> isDepends (get v ''depends'')
        then Inl (ValidationError errors_conf_depends)
      else forEachCheck
             (\<lambda>d. if isFn d then Inl (ValidationError errors_conf_behaviour) else Inr ())
             (entries v))"

definition checkConfig :: "config \<Rightarrow> error + bool" where
  "checkConfig conf =
     (case forEachCheck checkConfigEntry (map snd conf) of
        Inl err \<Rightarrow> Inl err
      | Inr u \<Rightarrow> Inr True)"

definition checkFnsEntry :: "'f entry \<Rightarrow> error + unit" where
  "checkFnsEntry v =
     (if \<not> isObject v then Inl (ValidationError errors_fns_object)
      else if has v ''start'' \<and> \<not> isFn (get v ''start'')
        then Inl (ValidationError errors_fns_startFn)
      else if \<not> has v ''start'' then Inl (ValidationError errors_fns_start)
      else if has v ''stop'' \<and> \<not> isFn (get v ''stop'')
        then Inl (ValidationError errors_fns_stop)
      else Inr ())"

definition checkFns :: "(string \<times> 'f entry) list \<Rightarrow> error + bool" where
  "checkFns fs =
     (case forEachCheck checkFnsEntry (map snd fs) of
        Inl err \<Rightarrow> Inl err
      | Inr u \<Rightarrow> Inr True)"

definition check :: "config \<Rightarrow> (string \<times> 'f entry) list \<Rightarrow> error + bool" where
  "check conf fs =
     (case checkConfig conf of
        Inl err \<Rightarrow> Inl err
      | Inr b \<Rightarrow> (case checkFns fs of Inl err \<Rightarrow> Inl err | Inr b' \<Rightarrow> Inr True))"

subsection \<open>Construction\<close>

text \<open>
  The constructor validates when asked to, sorts, and only then builds the services
  object; an exception leaves no System. The last argument is the world the callbacks
  will act on. The getters that the constructor defines read \<open>services\<close>; here
  \<open>field (services s) k\<close> is that read. A getter for a key among \<open>member_names\<close> would
  replace that member of the System; the record below has the members themselves, which
  is the System of a configuration whose keys are \<open>plain_names\<close>.
\<close>

definition build :: "config \<Rightarrow> 'w fns \<Rightarrow> 'w \<Rightarrow> error + 'w system" where
  "build conf fs w =
     (case sortDeps conf of
        Inl err \<Rightarrow> Inl err
      | Inr ord \<Rightarrow>
          Inr \<lparr>config = conf, order = ord, services = nullifyVals conf, fns = fs,
               world = w, events = []\<rparr>)"

definition System :: "config \<Rightarrow> 'w fns \<Rightarrow> bool \<Rightarrow> 'w \<Rightarrow> error + 'w system" where
  "System conf fs validate w =
     (if validate
      then (case check conf fs of Inl err \<Rightarrow> Inl err | Inr b \<Rightarrow> build conf fs w)
      else build conf fs w)"

subsection \<open>start\<close>

text \<open>
  The guarded assignment of \<open>start\<close>: when the service's value is \<open>null\<close>, the start
  callback is called with the configuration and the collected dependency values, and
  what it returns is stored. A callback that throws leaves the value as it was.
\<close>

definition startService :: "string \<Rightarrow> data \<Rightarrow> 'w system \<Rightarrow> 'w outcome" where
  "startService service deps s =
     (if field (services s) service = DNull then
        (case getProp (map_of (fns s) service) ''start'' of
           Inl err \<Rightarrow> Throw err s
         | Inr (DFn f) \<Rightarrow>
             (case collectDeps deps (services s) of
                Inl err \<Rightarrow> Throw err s
              | Inr dv \<Rightarrow>
                  (case f (AConfig (config s)) dv (world s) of
                     (r, w') \<Rightarrow>
                       (let s' = s\<lparr>world := w',
                                   events := events s @ [StartCalled service (config s) dv r]\<rparr>
                        in case r of
                             Inl x \<Rightarrow> Throw (Thrown x) s'
                           | Inr v \<Rightarrow>
                               Return (s'\<lparr>services := AList.update service v (services s')\<rparr>))))
         | Inr v \<Rightarrow> Throw TypeError s)
      else Return s)"

text \<open>
  \<open>forEach\<close> over service names with a callback that may throw or not return.
\<close>

fun forEachStart ::
  "(string \<Rightarrow> 'w system \<Rightarrow> 'w outcome option) \<Rightarrow> string list \<Rightarrow> 'w system
     \<Rightarrow> 'w outcome option" where
  "forEachStart f [] s = Some (Return s)"
| "forEachStart f (x # xs) s =
     (case f x s of
        None \<Rightarrow> None
      | Some (Throw err s') \<Rightarrow> Some (Throw err s')
      | Some (Return s') \<Rightarrow> forEachStart f xs s')"

text \<open>
  \<open>start\<close> calls itself on every dependency before it looks at the service's value, so on
  a cyclic configuration it never returns. The first argument bounds the depth of the
  nested calls; \<open>None\<close> is a call that does not return within that depth. The second
  argument is the optional service name.
\<close>

fun start :: "nat \<Rightarrow> string option \<Rightarrow> 'w system \<Rightarrow> 'w outcome option" where
  "start 0 service s = None"
| "start (Suc n) (Some service) s =
     (case dependsOn (config s) service of
        Inl err \<Rightarrow> Some (Throw err s)
      | Inr (DArr ds) \<Rightarrow>
          (case forEachStart (\<lambda>d. start n (Some d)) ds s of
             None \<Rightarrow> None
           | Some (Throw err s') \<Rightarrow> Some (Throw err s')
           | Some (Return s') \<Rightarrow> Some (startService service (DArr ds) s'))
      | Inr d \<Rightarrow> Some (Throw TypeError s))"
| "start (Suc n) None s = forEachStart (\<lambda>d. start n (Some d)) (order s) s"

subsection \<open>stop\<close>

fun forEachStop ::
  "(string \<Rightarrow> 'w system \<Rightarrow> 'w outcome) \<Rightarrow> string list \<Rightarrow> 'w system \<Rightarrow> 'w outcome" where
  "forEachStop f [] s = Return s"
| "forEachStop f (x # xs) s =
     (case f x s of
        Throw err s' \<Rightarrow> Throw err s'
      | Return s' \<Rightarrow> forEachStop f xs s')"

text \<open>
  \<open>stop\<close> with a service name. The dependencies and the \<open>stop\<close> member are read first.
  When the value is not \<open>null\<close>, a truthy \<open>stop\<close> is called with the value and the
  collected dependency values, and the value is set to \<open>null\<close> after it returns.
\<close>

definition stopService :: "string \<Rightarrow> 'w system \<Rightarrow> 'w outcome" where
  "stopService service s =
     (case dependsOn (config s) service of
        Inl err \<Rightarrow> Throw err s
      | Inr deps \<Rightarrow>
          (case getProp (map_of (fns s) service) ''stop'' of
             Inl err \<Rightarrow> Throw err s
           | Inr stp \<Rightarrow>
               if field (services s) service \<noteq> DNull then
                 (if truthy stp then
                    (case collectDeps deps (services s) of
                       Inl err \<Rightarrow> Throw err s
                     | Inr dv \<Rightarrow>
                         (case stp of
                            DFn f \<Rightarrow>
                              (case f (AValue (field (services s) service)) dv (world s) of
                                 (r, w') \<Rightarrow>
                                   (let s' = s\<lparr>world := w',
                                               events := events s @
                                                 [StopCalled service (field (services s) service) dv r]\<rparr>
                                    in case r of
                                         Inl x \<Rightarrow> Throw (Thrown x) s'
                                       | Inr v \<Rightarrow>
                                           Return (s'\<lparr>services :=
                                             AList.update service DNull (services s')\<rparr>)))
                          | v \<Rightarrow> Throw TypeError s))
                  else Return (s\<lparr>services := AList.update service DNull (services s)\<rparr>))
               else Return s))"

text \<open>
  \<open>stop\<close>: with a name, the single service; without, \<open>this._order.reverse()\<close> reverses
  the stored array in place and the loop runs over it.
\<close>

fun stop :: "string option \<Rightarrow> 'w system \<Rightarrow> 'w outcome" where
  "stop (Some service) s = stopService service s"
| "stop None s = forEachStop stopService (rev (order s)) (s\<lparr>order := rev (order s)\<rparr>)"

subsection \<open>The system of the test suite\<close>

text \<open>
  \<open>test/index.js\<close>: three services, \<open>y\<close> depending on \<open>x\<close> and \<open>sum\<close> on both; the
  world is the counter \<open>startCalls\<close>.
\<close>

definition test_conf :: config where
  "test_conf =
     [(''x'', Record [(''val'', DNum 1)]),
      (''y'', Record [(''val'', DNum 2), (''depends'', DStr ''x'')]),
      (''sum'', Record [(''depends'', DArr [''x'', ''y''])])]"

definition config_val :: "arg \<Rightarrow> string \<Rightarrow> data" where
  "config_val a k =
     (case a of
        AConfig c \<Rightarrow> (case map_of c k of Some (Record fs) \<Rightarrow> field fs ''val'' | _ \<Rightarrow> DUndefined)
      | AValue v \<Rightarrow> DUndefined)"

definition startX :: "nat callback" where
  "startX a deps w = (Inr (config_val a ''x''), Suc w)"

definition startY :: "nat callback" where
  "startY a deps w = (Inr (config_val a ''y''), Suc w)"

text \<open>\<open>x + y\<close> on the two numbers the test passes.\<close>

definition startSum :: "nat callback" where
  "startSum a deps w =
     (case (field deps ''x'', field deps ''y'') of
        (DNum x, DNum y) \<Rightarrow> (Inr (DNum (x + y)), Suc w)
      | _ \<Rightarrow> (Inr DUndefined, Suc w))"

definition test_fns :: "nat fns" where
  "test_fns =
     [(''x'', Record [(''start'', DFn startX)]),
      (''y'', Record [(''start'', DFn startY)]),
      (''sum'', Record [(''start'', DFn startSum)])]"

definition test_sys :: "nat system" where
  "test_sys =
     \<lparr>config = test_conf, order = [''x'', ''y'', ''sum''],
      services = [(''x'', DNull), (''y'', DNull), (''sum'', DNull)],
      fns = test_fns, world = 0, events = []\<rparr>"



text \<open>The test system after \<open>start()\<close>: the three start callbacks were called once each.\<close>

definition started_sys :: "nat system" where
  "started_sys =
     \<lparr>config = test_conf, order = [''x'', ''y'', ''sum''],
      services = [(''x'', DNum 1), (''y'', DNum 2), (''sum'', DNum 3)],
      fns = test_fns, world = 3,
      events = [StartCalled ''x'' test_conf [] (Inr (DNum 1)),
                StartCalled ''y'' test_conf [(''x'', DNum 1)] (Inr (DNum 2)),
                StartCalled ''sum'' test_conf [(''x'', DNum 1), (''y'', DNum 2)] (Inr (DNum 3))]\<rparr>"

text \<open>The test system with a start callback for \<open>sum\<close> that throws the string \<open>boom\<close>.\<close>

definition startFails :: "nat callback" where
  "startFails a deps w = (Inl (DStr ''boom''), Suc w)"

definition failing_sys :: "nat system" where
  "failing_sys =
     test_sys\<lparr>fns := [(''x'', Record [(''start'', DFn startX)]),
                       (''y'', Record [(''start'', DFn startY)]),
                       (''sum'', Record [(''start'', DFn startFails)])]\<rparr>"

definition failed_sys :: "nat system" where
  "failed_sys =
     failing_sys\<lparr>services := [(''x'', DNum 1), (''y'', DNum 2), (''sum'', DNull)],
        world := 3,
        events := [StartCalled ''x'' test_conf [] (Inr (DNum 1)),
                   StartCalled ''y'' test_conf [(''x'', DNum 1)] (Inr (DNum 2)),
                   StartCalled ''sum'' test_conf [(''x'', DNum 1), (''y'', DNum 2)]
                     (Inl (DStr ''boom''))]\<rparr>"

text \<open>A service whose start callback returns \<open>null\<close>, before and after \<open>start\<close>.\<close>

definition startNull :: "nat callback" where
  "startNull a deps w = (Inr DNull, Suc w)"

definition null_sys :: "nat system" where
  "null_sys =
     \<lparr>config = [(''a'', Record [])], order = [''a''], services = [(''a'', DNull)],
      fns = [(''a'', Record [(''start'', DFn startNull)])], world = 0, events = []\<rparr>"

definition null_sys1 :: "nat system" where
  "null_sys1 =
     null_sys\<lparr>world := 1,
        events := [StartCalled ''a'' [(''a'', Record [])] [] (Inr DNull)]\<rparr>"

definition null_sys2 :: "nat system" where
  "null_sys2 =
     null_sys\<lparr>world := 2,
        events := [StartCalled ''a'' [(''a'', Record [])] [] (Inr DNull),
                   StartCalled ''a'' [(''a'', Record [])] [] (Inr DNull)]\<rparr>"

text \<open>
  The services of the test suite, written with the dependent services first.
\<close>

definition unordered_conf :: config where
  "unordered_conf =
     [(''sum'', Record [(''depends'', DArr [''x'', ''y''])]),
      (''y'', Record [(''val'', DNum 2), (''depends'', DStr ''x'')]),
      (''x'', Record [(''val'', DNum 1)])]"

text \<open>
  The test system constructed with a functions object in which the entry of \<open>x\<close> is the
  number \<open>5\<close>.
\<close>

definition primitive_sys :: "nat system" where
  "primitive_sys = test_sys\<lparr>fns := [(''x'', Plain (DNum 5))]\<rparr>"
section \<open>Notions used in the statements\<close>

text \<open>
  \<open>topo es res\<close>: every successor of a node of \<open>res\<close> stands behind it.
  \<open>before xs a b\<close>: both occur in \<open>xs\<close> and \<open>a\<close> first occurs strictly before \<open>b\<close>.
\<close>

fun topo :: "('a \<times> 'a) list \<Rightarrow> 'a list \<Rightarrow> bool" where
  "topo es [] = True"
| "topo es (a # ys) = ((\<forall>b. (a, b) \<in> set es \<longrightarrow> b \<in> set ys) \<and> topo es ys)"

definition position :: "'a list \<Rightarrow> 'a \<Rightarrow> nat" where
  "position xs x = length (takeWhile (\<lambda>y. y \<noteq> x) xs)"

definition before :: "'a list \<Rightarrow> 'a \<Rightarrow> 'a \<Rightarrow> bool" where
  "before xs a b = (a \<in> set xs \<and> b \<in> set xs \<and> position xs a < position xs b)"

text \<open>
  The dependency relation of a configuration: \<open>(d, s)\<close> when the service \<open>s\<close> lists \<open>d\<close>.
  A configuration is \<open>declared\<close> when its keys are distinct (it is an object) and every
  service's dependencies are an array of keys of the configuration.
\<close>

definition dep_rel :: "config \<Rightarrow> (string \<times> string) set" where
  "dep_rel conf =
     {(d, s). s \<in> set (keys conf) \<and> (\<exists>ds. dependsOn conf s = Inr (DArr ds) \<and> d \<in> set ds)}"

definition declared :: "config \<Rightarrow> bool" where
  "declared conf =
     (distinct (keys conf) \<and>
      (\<forall>s \<in> set (keys conf). \<exists>ds. dependsOn conf s = Inr (DArr ds) \<and> set ds \<subseteq> set (keys conf)))"

text \<open>
  The dependencies as the specification words them, read from the configuration and not
  through \<open>dependsOn\<close>: a missing \<open>depends\<close> field yields the empty sequence, a string a
  single-element sequence, a sequence is returned as it is; there is no answer for a
  name that has no record or whose \<open>depends\<close> is anything else. \<open>depends_rel\<close> is the
  relation of these dependencies, and a configuration is \<open>wellformed\<close> when its keys are
  distinct and every service's dependencies are keys of the configuration.
\<close>

definition dependenciesOf :: "config \<Rightarrow> string \<Rightarrow> string list option" where
  "dependenciesOf conf name =
     (case map_of conf name of
        Some (Record fs) \<Rightarrow>
          (case map_of fs ''depends'' of
             None \<Rightarrow> Some []
           | Some (DStr s) \<Rightarrow> Some [s]
           | Some (DArr ds) \<Rightarrow> Some ds
           | Some v \<Rightarrow> None)
      | _ \<Rightarrow> None)"

definition depends_rel :: "config \<Rightarrow> (string \<times> string) set" where
  "depends_rel conf = {(d, s). \<exists>ds. dependenciesOf conf s = Some ds \<and> d \<in> set ds}"

definition wellformed :: "config \<Rightarrow> bool" where
  "wellformed conf =
     (distinct (keys conf) \<and>
      (\<forall>s \<in> set (keys conf). \<exists>ds. dependenciesOf conf s = Some ds \<and> set ds \<subseteq> set (keys conf)))"






text \<open>
  The calls of \<open>start\<close> that end, as a relation between the state before and the outcome:
  \<open>starts\<close> for one call, \<open>starts_each\<close> for the loop over a list of services.
\<close>

inductive starts :: "string option \<Rightarrow> 'w system \<Rightarrow> 'w outcome \<Rightarrow> bool"
  and starts_each :: "string list \<Rightarrow> 'w system \<Rightarrow> 'w outcome \<Rightarrow> bool" where
  each_nil: "starts_each [] s (Return s)"
| each_throw: "starts (Some d) s (Throw err s') \<Longrightarrow> starts_each (d # ds) s (Throw err s')"
| each_cons:
    "starts (Some d) s (Return s') \<Longrightarrow> starts_each ds s' r \<Longrightarrow> starts_each (d # ds) s r"
| deps_error: "dependsOn (config s) x = Inl err \<Longrightarrow> starts (Some x) s (Throw err s)"
| deps_not_array:
    "dependsOn (config s) x = Inr d \<Longrightarrow> \<forall>ds. d \<noteq> DArr ds \<Longrightarrow>
     starts (Some x) s (Throw TypeError s)"
| deps_throw:
    "dependsOn (config s) x = Inr (DArr ds) \<Longrightarrow> starts_each ds s (Throw err s') \<Longrightarrow>
     starts (Some x) s (Throw err s')"
| deps_return:
    "dependsOn (config s) x = Inr (DArr ds) \<Longrightarrow> starts_each ds s (Return s') \<Longrightarrow>
     starts (Some x) s (startService x (DArr ds) s')"
| bulk: "starts_each (order s) s r \<Longrightarrow> starts None s r"

text \<open>
  \<open>within conf n x\<close>: the dependencies below \<open>x\<close> are arrays and nest less than \<open>n\<close>
  deep, so that \<open>n\<close> nested calls of \<open>start\<close> suffice for \<open>x\<close>.
\<close>

fun within :: "config \<Rightarrow> nat \<Rightarrow> string \<Rightarrow> bool" where
  "within conf 0 x = False"
| "within conf (Suc n) x =
     (case dependsOn conf x of
        Inr (DArr ds) \<Rightarrow> (\<forall>d \<in> set ds. within conf n d)
      | _ \<Rightarrow> False)"

text \<open>The number of calls of the start callback of \<open>name\<close> in a trace.\<close>

fun is_start_of :: "string \<Rightarrow> event \<Rightarrow> bool" where
  "is_start_of name (StartCalled k c d r) = (k = name)"
| "is_start_of name (StopCalled k v d r) = False"

definition start_calls :: "string \<Rightarrow> event list \<Rightarrow> nat" where
  "start_calls name evs = length (filter (is_start_of name) evs)"

text \<open>
  The start callbacks of the functions object never return \<open>null\<close> on the configuration.
\<close>

definition returns_nonnull :: "config \<Rightarrow> 'w fns \<Rightarrow> bool" where
  "returns_nonnull conf fs =
     (\<forall>k rec f dv w. map_of fs k = Some (Record rec) \<and> field rec ''start'' = DFn f \<longrightarrow>
        fst (f (AConfig conf) dv w) \<noteq> Inr DNull)"



text \<open>
  Two properties of the events \<open>evs\<close> that a call added and of its outcome \<open>r\<close>. A start
  callback that threw \<open>v\<close> made the last call of the trace, the outcome is \<open>v\<close> thrown,
  and the value of its service is null. A start callback that returned a value other
  than null has that value stored.
\<close>

definition thrown_last :: "event list \<Rightarrow> 'w outcome \<Rightarrow> bool" where
  "thrown_last evs r =
     (\<forall>x c dv v. StartCalled x c dv (Inl v) \<in> set evs \<longrightarrow>
        r = Throw (Thrown v) (state_of r) \<and> last evs = StartCalled x c dv (Inl v) \<and>
        field (services (state_of r)) x = DNull)"

definition started_kept :: "event list \<Rightarrow> services \<Rightarrow> bool" where
  "started_kept evs svcs =
     (\<forall>k c dv v. StartCalled k c dv (Inr v) \<in> set evs \<and> v \<noteq> DNull \<longrightarrow> field svcs k = v)"

section \<open>The topological sort is sound and complete\<close>

lemma set_outgoing: "set (outgoing es n) = {b. (n, b) \<in> set es}"
  by (force simp: outgoing_def)

lemma visit_inv:
  assumes "visit nodes es todo preds (V, R) = Inr (V', R')"
    and "set V = set R \<union> set preds" and "set R \<inter> set preds = {}"
    and "distinct R" and "topo es R" and "set R \<subseteq> set nodes"
  shows "set V' = set R' \<union> set preds \<and> set R' \<inter> set preds = {} \<and> distinct R' \<and> topo es R'
         \<and> set R' \<subseteq> set nodes \<and> set todo \<subseteq> set R' \<and> set R \<subseteq> set R'"
  using assms
proof (induction nodes es todo preds "(V, R)" arbitrary: V R V' R' rule: visit.induct)
  case (1 nodes es preds)
  then show ?case by simp
next
  case (2 nodes es n todo preds V R)
  from "2.prems"(1) have np: "n \<notin> set preds" and nn: "n \<in> set nodes"
    by (auto split: if_splits)
  show ?case
  proof (cases "n \<in> set V")
    case True
    with np nn "2.prems"(1) have v: "visit nodes es todo preds (V, R) = Inr (V', R')" by simp
    have *: "set V' = set R' \<union> set preds \<and> set R' \<inter> set preds = {} \<and> distinct R' \<and> topo es R'
         \<and> set R' \<subseteq> set nodes \<and> set todo \<subseteq> set R' \<and> set R \<subseteq> set R'"
      using "2.hyps"(1)[of V' R'] np nn True v "2.prems"(2-6) by simp
    from True np "2.prems"(2) have "n \<in> set R" by auto
    with * show ?thesis by auto
  next
    case False
    with np nn "2.prems"(1) obtain V1 R1 where
      inner: "visit nodes es (rev (outgoing es n)) (n # preds) (n # V, R) = Inr (V1, R1)"
      and outer: "visit nodes es todo preds (V1, n # R1) = Inr (V', R')"
      by (auto split: sum.splits)
    from nn have nn': "\<not> n \<notin> set nodes" by simp
    have nR: "n \<notin> set R" using False "2.prems"(2) by auto
    have i: "set V1 = set R1 \<union> set (n # preds) \<and> set R1 \<inter> set (n # preds) = {} \<and> distinct R1
        \<and> topo es R1 \<and> set R1 \<subseteq> set nodes \<and> set (rev (outgoing es n)) \<subseteq> set R1 \<and> set R \<subseteq> set R1"
      using "2.hyps"(2)[of V1 R1] np nn False inner "2.prems"(2-6) nR by auto
    have o: "set V' = set R' \<union> set preds \<and> set R' \<inter> set preds = {} \<and> distinct R' \<and> topo es R'
         \<and> set R' \<subseteq> set nodes \<and> set todo \<subseteq> set R' \<and> set (n # R1) \<subseteq> set R'"
      proof (rule "2.hyps"(3)[OF np nn' False inner refl outer])
      show "set V1 = set (n # R1) \<union> set preds" using i by auto
      show "set (n # R1) \<inter> set preds = {}" using i np by auto
      show "distinct (n # R1)" using i by auto
      show "topo es (n # R1)" using i by (auto simp: set_outgoing)
      show "set (n # R1) \<subseteq> set nodes" using i nn by auto
    qed
    from i o show ?thesis by auto
  qed
qed


lemma topo_before:
  "topo es R \<Longrightarrow> distinct R \<Longrightarrow> (a, b) \<in> set es \<Longrightarrow> a \<in> set R \<Longrightarrow> before R a b"
proof (induction R)
  case Nil
  then show ?case by simp
next
  case (Cons x ys)
  show ?case
  proof (cases "a = x")
    case True
    with Cons.prems have "b \<in> set ys" "b \<noteq> x" by auto
    with True show ?thesis by (simp add: before_def position_def)
  next
    case False
    with Cons have b: "before ys a b" by simp
    then have "b \<in> set ys" by (simp add: before_def)
    with Cons.prems(2) have "b \<noteq> x" by auto
    with False b show ?thesis by (simp add: before_def position_def)
  qed
qed

lemma visit_error:
  "visit nodes es todo preds st = Inl err \<Longrightarrow> err = CyclicDependency \<or> err = UnknownNode"
proof (induction nodes es todo preds st rule: visit.induct)
  case (1 nodes es preds st)
  then show ?case by simp
next
  case (2 nodes es n todo preds visited res)
  then show ?case
    by (auto split: if_splits sum.splits)
qed

lemma visit_returns:
  assumes "acyclic (set es)"
    and "\<forall>e \<in> set es. snd e \<in> set nodes"
    and "set todo \<subseteq> set nodes"
    and "\<forall>p \<in> set preds. \<forall>t \<in> set todo. (p, t) \<in> (set es)\<^sup>+"
  shows "\<exists>st'. visit nodes es todo preds st = Inr st'"
  using assms
proof (induction nodes es todo preds st rule: visit.induct)
  case (1 nodes es preds st)
  then show ?case by simp
next
  case (2 nodes es n todo preds visited res)
  have np: "n \<notin> set preds"
  proof
    assume "n \<in> set preds"
    with "2.prems"(4) have "(n, n) \<in> (set es)\<^sup>+" by simp
    with "2.prems"(1) show False by (simp add: acyclic_def)
  qed
  have nn: "\<not> n \<notin> set nodes" using "2.prems"(3) by simp
  have todo: "set todo \<subseteq> set nodes" "\<forall>p \<in> set preds. \<forall>t \<in> set todo. (p, t) \<in> (set es)\<^sup>+"
    using "2.prems"(3,4) by auto
  show ?case
  proof (cases "n \<in> set visited")
    case True
    with "2.IH"(1)[OF np nn True "2.prems"(1,2) todo] np nn show ?thesis by simp
  next
    case False
    have c1: "set (rev (outgoing es n)) \<subseteq> set nodes"
      using "2.prems"(2) by (auto simp: set_outgoing)
    have c2: "\<forall>p \<in> set (n # preds). \<forall>t \<in> set (rev (outgoing es n)). (p, t) \<in> (set es)\<^sup>+"
    proof (intro ballI)
      fix p t assume p: "p \<in> set (n # preds)" and t: "t \<in> set (rev (outgoing es n))"
      from t have e: "(n, t) \<in> set es" by (simp add: set_outgoing)
      show "(p, t) \<in> (set es)\<^sup>+"
      proof (cases "p = n")
        case True
        with e show ?thesis by auto
      next
        case False
        with p "2.prems"(4) have "(p, n) \<in> (set es)\<^sup>+" by simp
        with e show ?thesis by (auto intro: trancl.trancl_into_trancl)
      qed
    qed
    from "2.IH"(2)[OF np nn False "2.prems"(1,2) c1 c2]
    obtain V1 R1 where inner:
      "visit nodes es (rev (outgoing es n)) (n # preds) (n # visited, res) = Inr (V1, R1)"
      by auto
    from "2.IH"(3)[OF np nn False inner refl "2.prems"(1,2) todo]
    obtain st' where "visit nodes es todo preds (V1, n # R1) = Inr st'" by auto
    with inner np nn False show ?thesis by simp
  qed
qed

lemma toposort_array_sound:
  assumes "toposort_array nodes es = Inr ord"
  shows "distinct ord \<and> set ord = set nodes \<and> (\<forall>(a, b) \<in> set es. before ord a b)"
proof -
  from assms have closed: "\<forall>e \<in> set es. fst e \<in> set nodes \<and> snd e \<in> set nodes"
    by (auto simp: toposort_array_def split: if_splits)
  with assms obtain V where v: "visit nodes es (rev nodes) [] ([], []) = Inr (V, ord)"
    by (auto simp: toposort_array_def split: if_splits sum.splits)
  have inv: "set V = set ord \<union> set [] \<and> set ord \<inter> set [] = {} \<and> distinct ord \<and> topo es ord
         \<and> set ord \<subseteq> set nodes \<and> set (rev nodes) \<subseteq> set ord \<and> set [] \<subseteq> set ord"
    by (rule visit_inv[OF v]) simp_all
  then have s: "set ord = set nodes" by auto
  have "before ord a b" if "(a, b) \<in> set es" for a b
  proof -
    from that closed s have "a \<in> set ord" by force
    with inv that show ?thesis by (auto intro: topo_before)
  qed
  with inv s show ?thesis by auto
qed

lemma before_acyclic:
  assumes "\<forall>(a, b) \<in> r. before ord a b"
  shows "acyclic r"
proof (rule acyclicI_order[where f = "\<lambda>x. length ord - position ord x"])
  fix a b assume "(a, b) \<in> r"
  with assms have "before ord a b" by auto
  moreover have "position ord b \<le> length ord"
    by (simp add: position_def length_takeWhile_le)
  ultimately show "length ord - position ord b < length ord - position ord a"
    by (auto simp: before_def)
qed

lemma visit_known:
  assumes "\<forall>e \<in> set es. snd e \<in> set nodes" and "set todo \<subseteq> set nodes"
  shows "visit nodes es todo preds st \<noteq> Inl UnknownNode"
  using assms
proof (induction nodes es todo preds st rule: visit.induct)
  case (1 nodes es preds st)
  then show ?case by simp
next
  case (2 nodes es n todo preds visited res)
  have c1: "set (rev (outgoing es n)) \<subseteq> set nodes"
    using "2.prems"(1) by (auto simp: set_outgoing)
  from "2.prems" have todo: "set todo \<subseteq> set nodes" and nn: "\<not> n \<notin> set nodes" by auto
  show ?case
  proof (cases "n \<in> set preds")
    case True
    then show ?thesis by simp
  next
    case np: False
    show ?thesis
    proof (cases "n \<in> set visited")
      case True
      with "2.IH"(1)[OF np nn True "2.prems"(1) todo] np nn show ?thesis by simp
    next
      case False
      show ?thesis
      proof (cases "visit nodes es (rev (outgoing es n)) (n # preds) (n # visited, res)")
        case (Inl err)
        with "2.IH"(2)[OF np nn False "2.prems"(1) c1] have "err \<noteq> UnknownNode" by auto
        with Inl np nn False show ?thesis by simp
      next
        case (Inr st')
        obtain V1 R1 where st': "st' = (V1, R1)" by (cases st')
        from "2.IH"(3)[OF np nn False Inr[unfolded st'] refl "2.prems"(1) todo] Inr st' np nn False
        show ?thesis by simp
      qed
    qed
  qed
qed

lemma toposort_array_cyclic:
  assumes "\<not> acyclic (set es)"
    and "\<forall>e \<in> set es. fst e \<in> set nodes \<and> snd e \<in> set nodes"
  shows "toposort_array nodes es = Inl CyclicDependency"
proof (cases "visit nodes es (rev nodes) [] ([], [])")
  case (Inl err)
  have "err \<noteq> UnknownNode"
    using visit_known[of es nodes "rev nodes" "[]" "([], [])"] assms(2) Inl by auto
  with visit_error[OF Inl] have "err = CyclicDependency" by simp
  with Inl assms(2) show ?thesis by (auto simp: toposort_array_def)
next
  case (Inr st)
  obtain V ord where "st = (V, ord)" by (cases st)
  with Inr assms(2) have "toposort_array nodes es = Inr ord"
    by (auto simp: toposort_array_def)
  from toposort_array_sound[OF this] have "acyclic (set es)"
    by (intro before_acyclic[of _ ord]) auto
  with assms(1) show ?thesis by simp
qed

lemma toposort_array_returns:
  assumes "acyclic (set es)"
    and "\<forall>e \<in> set es. fst e \<in> set nodes \<and> snd e \<in> set nodes"
  shows "\<exists>ord. toposort_array nodes es = Inr ord"
proof -
  from visit_returns[of es nodes "rev nodes" "[]" "([], [])"] assms
  obtain st' where "visit nodes es (rev nodes) [] ([], []) = Inr st'" by auto
  with assms(2) show ?thesis
    by (cases st') (auto simp: toposort_array_def)
qed
section \<open>The edges of a declared configuration\<close>

lemma flatMap_Inr:
  assumes "\<forall>x \<in> set xs. \<exists>ys. f x = Inr ys"
  shows "\<exists>zs. flatMap f xs = Inr zs \<and> set zs = {z. \<exists>x \<in> set xs. \<exists>ys. f x = Inr ys \<and> z \<in> set ys}"
  using assms
proof (induction xs)
  case Nil
  then show ?case by simp
next
  case (Cons x xs)
  then obtain ys where ys: "f x = Inr ys" by auto
  from Cons obtain zs where zs: "flatMap f xs = Inr zs"
    "set zs = {z. \<exists>x \<in> set xs. \<exists>ys. f x = Inr ys \<and> z \<in> set ys}" by auto
  from ys zs have "flatMap f (x # xs) = Inr (ys @ zs)" by simp
  moreover have "set (ys @ zs) = {z. \<exists>x' \<in> set (x # xs). \<exists>ys. f x' = Inr ys \<and> z \<in> set ys}"
    using ys zs(2) by auto
  ultimately show ?case by blast
qed

lemma depEdges_array:
  "dependsOn conf s = Inr (DArr ds) \<Longrightarrow> depEdges conf s = Inr (map (\<lambda>dep. (dep, s)) ds)"
  by (simp add: depEdges_def)

lemma edges_declared:
  assumes "declared conf"
  shows "\<exists>es. edges conf = Inr es \<and> set es = dep_rel conf"
proof -
  have all: "\<forall>s \<in> set (keys conf). \<exists>ys. depEdges conf s = Inr ys"
    using assms by (auto simp: declared_def dest!: bspec intro: depEdges_array)
  from flatMap_Inr[OF all] obtain zs where zs: "flatMap (depEdges conf) (keys conf) = Inr zs"
    "set zs = {z. \<exists>s \<in> set (keys conf). \<exists>ys. depEdges conf s = Inr ys \<and> z \<in> set ys}"
    by blast
  have "set zs = dep_rel conf"
  proof (rule set_eqI)
    fix z :: "string \<times> string"
    obtain d s where z: "z = (d, s)" by (cases z)
    show "z \<in> set zs \<longleftrightarrow> z \<in> dep_rel conf"
    proof
      assume "z \<in> set zs"
      with zs(2) obtain s' ys where s': "s' \<in> set (keys conf)" "depEdges conf s' = Inr ys" "z \<in> set ys"
        by auto
      from assms s'(1) obtain ds where ds: "dependsOn conf s' = Inr (DArr ds)"
        by (auto simp: declared_def)
      with s'(2,3) z have "s = s'" "d \<in> set ds" by (auto simp: depEdges_array)
      with s'(1) ds z show "z \<in> dep_rel conf" by (auto simp: dep_rel_def)
    next
      assume "z \<in> dep_rel conf"
      with z obtain ds where ds: "s \<in> set (keys conf)" "dependsOn conf s = Inr (DArr ds)" "d \<in> set ds"
        by (auto simp: dep_rel_def)
      from ds(2,3) have "depEdges conf s = Inr (map (\<lambda>dep. (dep, s)) ds)"
        "(d, s) \<in> set (map (\<lambda>dep. (dep, s)) ds)" by (auto simp: depEdges_array)
      with zs(2) z ds(1) show "z \<in> set zs" by blast
    qed
  qed
  moreover have "filter isNotEmpty zs = zs" by (simp add: isNotEmpty_def)
  ultimately show ?thesis using zs(1) by (simp add: edges_def)
qed

lemma dep_rel_closed:
  assumes "declared conf" and "(d, s) \<in> dep_rel conf"
  shows "d \<in> set (keys conf) \<and> s \<in> set (keys conf)"
  using assms by (fastforce simp: declared_def dep_rel_def)

lemma before_trancl:
  assumes "\<forall>(a, b) \<in> r. before ord a b" and "(a, b) \<in> r\<^sup>+"
  shows "before ord a b"
  using assms(2)
proof (induction rule: trancl.induct)
  case (r_into_trancl a b)
  with assms(1) show ?case by auto
next
  case (trancl_into_trancl a b c)
  with assms(1) have "before ord b c" by auto
  with trancl_into_trancl.IH show ?case by (auto simp: before_def)
qed

lemma sortDeps_declared:
  assumes "declared conf"
  shows "if acyclic (dep_rel conf)
         then \<exists>ord. sortDeps conf = Inr ord \<and> distinct ord \<and> set ord = set (keys conf)
                 \<and> (\<forall>(d, s) \<in> (dep_rel conf)\<^sup>+. before ord d s)
         else sortDeps conf = Inl CyclicDependency"
proof -
  from edges_declared[OF assms] obtain es where es: "edges conf = Inr es" "set es = dep_rel conf"
    by blast
  have closed: "\<forall>e \<in> set es. fst e \<in> set (keys conf) \<and> snd e \<in> set (keys conf)"
    using dep_rel_closed[OF assms] es(2) by auto
  show ?thesis
  proof (cases "acyclic (dep_rel conf)")
    case True
    with es(2) have "acyclic (set es)" by simp
    from toposort_array_returns[OF this closed] obtain ord
      where ord: "toposort_array (keys conf) es = Inr ord" by blast
    from toposort_array_sound[OF ord] es(2)
    have s: "distinct ord" "set ord = set (keys conf)" "\<forall>(a, b) \<in> dep_rel conf. before ord a b"
      by auto
    have "\<forall>(d, s) \<in> (dep_rel conf)\<^sup>+. before ord d s"
      using before_trancl[OF s(3)] by auto
    with True ord es(1) s(1,2) show ?thesis by (simp add: sortDeps_def)
  next
    case False
    with es(2) have "\<not> acyclic (set es)" by simp
    from toposort_array_cyclic[OF this closed] False es(1) show ?thesis
      by (simp add: sortDeps_def)
  qed
qed

section \<open>The configuration of the test suite\<close>

lemma dependsOn_test_conf:
  "dependsOn test_conf ''x'' = Inr (DArr [])"
  "dependsOn test_conf ''y'' = Inr (DArr [''x''])"
  "dependsOn test_conf ''sum'' = Inr (DArr [''x'', ''y''])"
  by (simp_all add: dependsOn_def test_conf_def field_def)

lemma keys_test_conf: "keys test_conf = [''x'', ''y'', ''sum'']"
  by (simp add: keys_def test_conf_def)




lemma plain_test_names:
  "plain_name ''x''" "plain_name ''y''" "plain_name ''sum''"
  by (simp_all add: plain_name_def member_names_def inherited_names_def index_name_def)

lemma plain_names_test_conf: "plain_names (keys test_conf)"
  by (simp add: plain_names_def keys_test_conf plain_test_names)

section \<open>The start order\<close>

text \<open>
  On a well-formed configuration the source's \<open>dependsOn\<close> returns the dependencies of
  the specification.
\<close>

lemma dependsOn_dependenciesOf:
  assumes "dependenciesOf conf s = Some ds"
  shows "dependsOn conf s = Inr (DArr ds)"
proof -
  from assms obtain fs where fs: "map_of conf s = Some (Record fs)"
    by (auto simp: dependenciesOf_def split: option.splits entry.splits)
  show ?thesis
  proof (cases "map_of fs ''depends''")
    case None
    with assms fs show ?thesis by (simp add: dependenciesOf_def dependsOn_def field_def)
  next
    case (Some v)
    with assms fs show ?thesis
      by (cases v) (simp_all add: dependenciesOf_def dependsOn_def field_def)
  qed
qed

lemma dependenciesOf_key: "dependenciesOf conf s = Some ds \<Longrightarrow> s \<in> set (keys conf)"
  by (cases "map_of conf s")
     (auto simp: dependenciesOf_def keys_def dest!: map_of_SomeD intro: rev_image_eqI)

lemma wellformed_declared:
  assumes "wellformed conf"
  shows "declared conf" and "dep_rel conf = depends_rel conf"
proof -
  from assms show "declared conf"
    unfolding wellformed_def declared_def by (meson dependsOn_dependenciesOf)
  show "dep_rel conf = depends_rel conf"
  proof (rule set_eqI)
    fix z :: "string \<times> string"
    obtain d s where z: "z = (d, s)" by (cases z)
    show "z \<in> dep_rel conf \<longleftrightarrow> z \<in> depends_rel conf"
    proof
      assume "z \<in> dep_rel conf"
      with z obtain ds where 1: "s \<in> set (keys conf)" "dependsOn conf s = Inr (DArr ds)" "d \<in> set ds"
        by (auto simp: dep_rel_def)
      from assms 1(1) obtain ds' where 2: "dependenciesOf conf s = Some ds'"
        by (auto simp: wellformed_def)
      from dependsOn_dependenciesOf[OF 2] 1(2) have "ds' = ds" by simp
      with 1(3) 2 z show "z \<in> depends_rel conf" by (auto simp: depends_rel_def)
    next
      assume "z \<in> depends_rel conf"
      with z obtain ds where 1: "dependenciesOf conf s = Some ds" "d \<in> set ds"
        by (auto simp: depends_rel_def)
      from dependenciesOf_key[OF 1(1)] dependsOn_dependenciesOf[OF 1(1)] 1(2) z
      show "z \<in> dep_rel conf" by (auto simp: dep_rel_def)
    qed
  qed
qed

lemma dependenciesOf_unordered_conf:
  "dependenciesOf unordered_conf ''sum'' = Some [''x'', ''y'']"
  "dependenciesOf unordered_conf ''y'' = Some [''x'']"
  "dependenciesOf unordered_conf ''x'' = Some []"
  by (simp_all add: dependenciesOf_def unordered_conf_def)

lemma keys_unordered_conf: "keys unordered_conf = [''sum'', ''y'', ''x'']"
  by (simp add: keys_def unordered_conf_def)

lemma wellformed_unordered_conf: "wellformed unordered_conf"
  by (simp add: wellformed_def keys_unordered_conf dependenciesOf_unordered_conf)

lemma depends_rel_unordered_conf:
  "(''x'', ''y'') \<in> depends_rel unordered_conf"
  "(''y'', ''sum'') \<in> depends_rel unordered_conf"
  "(''x'', ''sum'') \<in> depends_rel unordered_conf"
  by (simp_all add: depends_rel_def dependenciesOf_unordered_conf)

lemma acyclic_unordered_conf: "acyclic (depends_rel unordered_conf)"
proof (rule before_acyclic[of _ "[''x'', ''y'', ''sum'']"])
  have "(d, s) \<in> {(''x'', ''y''), (''x'', ''sum''), (''y'', ''sum'')}"
    if "dependenciesOf unordered_conf s = Some ds" "d \<in> set ds" for d s ds
  proof -
    from dependenciesOf_key[OF that(1)] have "s = ''sum'' \<or> s = ''y'' \<or> s = ''x''"
      by (simp add: keys_unordered_conf)
    with that show ?thesis by (auto simp: dependenciesOf_unordered_conf)
  qed
  then have "depends_rel unordered_conf \<subseteq> {(''x'', ''y''), (''x'', ''sum''), (''y'', ''sum'')}"
    unfolding depends_rel_def by blast
  then show "\<forall>(a, b) \<in> depends_rel unordered_conf. before [''x'', ''y'', ''sum''] a b"
    by (auto simp: before_def position_def)
qed

lemma sortDeps_unordered_conf: "sortDeps unordered_conf = Inr [''x'', ''y'', ''sum'']"
proof -
  have d: "dependsOn unordered_conf ''sum'' = Inr (DArr [''x'', ''y''])"
    "dependsOn unordered_conf ''y'' = Inr (DArr [''x''])"
    "dependsOn unordered_conf ''x'' = Inr (DArr [])"
    by (simp_all add: dependsOn_dependenciesOf dependenciesOf_unordered_conf)
  note k = keys_unordered_conf
  have e: "edges unordered_conf = Inr [(''x'', ''sum''), (''y'', ''sum''), (''x'', ''y'')]"
    by (simp add: edges_def k depEdges_def d isNotEmpty_def)
  have t: "toposort_array [''sum'', ''y'', ''x'']
             [(''x'', ''sum''), (''y'', ''sum''), (''x'', ''y'')] = Inr [''x'', ''y'', ''sum'']"
    by (simp add: toposort_array_def outgoing_def)
  show ?thesis by (simp add: sortDeps_def e k t)
qed

text \<open>
  C2. Take a well-formed configuration whose dependency relation, as the specification
  reads it from the \<open>depends\<close> fields, is acyclic. Then \<open>sortDeps\<close> returns an order that
  holds every service once and places every dependency, direct or transitive, strictly
  before the service that depends on it. The order is a function of the configuration
  alone, so a repeated call returns the same order.
\<close>

theorem sortDeps_dependencies_first:
  assumes "wellformed conf" and "acyclic (depends_rel conf)"
  shows "\<exists>ord. sortDeps conf = Inr ord \<and> distinct ord \<and> set ord = set (keys conf)
           \<and> (\<forall>(d, s) \<in> (depends_rel conf)\<^sup>+. before ord d s)"
  using sortDeps_declared[OF wellformed_declared(1)[OF assms(1)]] assms(2)
    wellformed_declared(2)[OF assms(1)] by simp

theorem sortDeps_dependencies_first_witness:
  "wellformed unordered_conf \<and> acyclic (depends_rel unordered_conf) \<and>
   keys unordered_conf = [''sum'', ''y'', ''x''] \<and>
   dependenciesOf unordered_conf ''sum'' = Some [''x'', ''y''] \<and>
   dependenciesOf unordered_conf ''y'' = Some [''x''] \<and>
   sortDeps unordered_conf = Inr [''x'', ''y'', ''sum''] \<and>
   before [''x'', ''y'', ''sum''] ''x'' ''y'' \<and>
   before [''x'', ''y'', ''sum''] ''y'' ''sum'' \<and>
   before [''x'', ''y'', ''sum''] ''x'' ''sum''"
proof -
  from sortDeps_dependencies_first[OF wellformed_unordered_conf acyclic_unordered_conf]
  obtain ord where ord: "sortDeps unordered_conf = Inr ord"
    "\<forall>(d, s) \<in> (depends_rel unordered_conf)\<^sup>+. before ord d s" by blast
  from ord(1) sortDeps_unordered_conf have o: "ord = [''x'', ''y'', ''sum'']" by simp
  from ord(2) depends_rel_unordered_conf o
  have "before [''x'', ''y'', ''sum''] ''x'' ''y''" "before [''x'', ''y'', ''sum''] ''y'' ''sum''"
    "before [''x'', ''y'', ''sum''] ''x'' ''sum''" by auto
  then show ?thesis
    using wellformed_unordered_conf acyclic_unordered_conf sortDeps_unordered_conf
      dependenciesOf_unordered_conf keys_unordered_conf by simp
qed

section \<open>Construction\<close>

















lemma build_test: "build test_conf fs (0::nat) = Inr (test_sys\<lparr>fns := fs\<rparr>)"
proof -
  have e: "edges test_conf = Inr [(''x'', ''y''), (''x'', ''sum''), (''y'', ''sum'')]"
    by (simp add: edges_def keys_test_conf depEdges_def dependsOn_test_conf isNotEmpty_def)
  have t: "toposort_array [''x'', ''y'', ''sum'']
             [(''x'', ''y''), (''x'', ''sum''), (''y'', ''sum'')] = Inr [''x'', ''y'', ''sum'']"
    by (simp add: toposort_array_def outgoing_def)
  have n: "nullifyVals test_conf = [(''x'', DNull), (''y'', DNull), (''sum'', DNull)]"
    by (simp add: nullifyVals_def keys_test_conf)
  show ?thesis
    by (simp add: build_def sortDeps_def e t n keys_test_conf test_sys_def)
qed

lemma System_test: "System test_conf test_fns True 0 = Inr test_sys"
proof -
  have c: "check test_conf test_fns = Inr True"
    by (simp add: check_def checkConfig_def checkConfigEntry_def checkFns_def checkFnsEntry_def
        test_conf_def test_fns_def keys_def field_def)
  have "test_sys\<lparr>fns := test_fns\<rparr> = test_sys" by (simp add: test_sys_def)
  with c build_test[of test_fns] show ?thesis by (simp add: System_def)
qed







section \<open>stop\<close>

lemma field_update: "field (AList.update k v al) k' = (if k' = k then v else field al k')"
  by (simp add: field_def update_conv')



lemma dependsOn_error: "dependsOn conf name = Inl err \<Longrightarrow> err = TypeError"
  by (cases "(map_of conf name, ''depends'')" rule: getProp.cases)
     (auto simp: dependsOn_def split: sum.splits jsdata.splits)

lemma stopService_frame:
  "config (state_of (stopService name s)) = config s"
  "fns (state_of (stopService name s)) = fns s"
  "order (state_of (stopService name s)) = order s"
  "k \<noteq> name \<Longrightarrow> field (services (state_of (stopService name s))) k = field (services s) k"
  by (auto simp: stopService_def field_update Let_def
      split: sum.splits jsdata.splits prod.splits)

lemma forEachStop_order: "order (state_of (forEachStop stopService xs s)) = order s"
proof (induction xs arbitrary: s)
  case Nil
  then show ?case by simp
next
  case (Cons x xs)
  show ?case
  proof (cases "stopService x s")
    case (Return s')
    with stopService_frame(3)[of x s] have "order s' = order s" by simp
    with Return Cons.IH[of s'] show ?thesis by simp
  next
    case (Throw err s')
    with stopService_frame(3)[of x s] show ?thesis by simp
  qed
qed

lemma order_stop_all: "order (state_of (stop None s)) = rev (order s)"
  by (simp add: forEachStop_order)

text \<open>
  C1. The stored order does not stay as the constructor computed it: a bulk \<open>stop()\<close>
  reverses \<open>_order\<close> in place (\<open>order_stop_all\<close>), where \<open>start\<close> and \<open>stop\<close> with a
  service name leave it alone. On the system of the test suite the constructor builds
  the order \<open>x, y, sum\<close>, and after one bulk \<open>stop()\<close> the stored order is
  \<open>sum, y, x\<close>.
\<close>

theorem bulk_stop_reverses_order:
  "System test_conf test_fns True 0 = Inr test_sys \<and>
   order test_sys = [''x'', ''y'', ''sum''] \<and>
   order (state_of (stop None test_sys)) = [''sum'', ''y'', ''x'']"
  using System_test order_stop_all[of test_sys] by (simp add: test_sys_def)



lemma getProp_absent:
  assumes "e \<noteq> Plain DNull" and "e \<noteq> Plain DUndefined" and "\<not> has e k"
  shows "getProp (Some e) k = Inr DUndefined"
proof (cases e)
  case (Record fs)
  with assms(3) have "map_of fs k = None" by (simp add: keys_def map_of_eq_None_iff)
  with Record show ?thesis by (simp add: field_def)
next
  case (Plain v)
  with assms(1,2) show ?thesis by (cases v) simp_all
qed

text \<open>
  C10, as amended. Let the keys of the configuration and \<open>name\<close> be plain names.
  \<open>stop(name)\<close> reads the \<open>stop\<close> member of the entry of \<open>name\<close> in the functions object
  before it looks at the service's value. When there is no entry, or the entry is
  \<open>null\<close> or \<open>undefined\<close>, the call throws a TypeError and changes nothing, whether the
  service runs or not. When the entry is any other value without a \<open>stop\<close> member, a
  record or not, and the dependencies are read without error, the call returns, calls
  nothing, and only sets the value to null when it was not.
\<close>

theorem stop_without_entry:
  assumes "plain_names (keys (config s))" and "plain_name name"
  shows "(map_of (fns s) name = None \<or> map_of (fns s) name = Some (Plain DNull) \<or>
          map_of (fns s) name = Some (Plain DUndefined) \<longrightarrow>
            stop (Some name) s = Throw TypeError s) \<and>
         (\<forall>e deps. map_of (fns s) name = Some e \<and> e \<noteq> Plain DNull \<and> e \<noteq> Plain DUndefined \<and>
              \<not> has e ''stop'' \<and> dependsOn (config s) name = Inr deps \<longrightarrow>
            stop (Some name) s =
              Return (if field (services s) name = DNull then s
                      else s\<lparr>services := AList.update name DNull (services s)\<rparr>))"
proof
  show "map_of (fns s) name = None \<or> map_of (fns s) name = Some (Plain DNull) \<or>
          map_of (fns s) name = Some (Plain DUndefined) \<longrightarrow>
            stop (Some name) s = Throw TypeError s"
  proof
    assume n: "map_of (fns s) name = None \<or> map_of (fns s) name = Some (Plain DNull) \<or>
          map_of (fns s) name = Some (Plain DUndefined)"
    then have g: "getProp (map_of (fns s) name) ''stop'' = Inl TypeError" by auto
    show "stop (Some name) s = Throw TypeError s"
    proof (cases "dependsOn (config s) name")
      case (Inl err)
      with dependsOn_error[OF Inl] show ?thesis by (simp add: stopService_def)
    next
      case (Inr deps)
      with g show ?thesis by (simp add: stopService_def)
    qed
  qed
next
  show "\<forall>e deps. map_of (fns s) name = Some e \<and> e \<noteq> Plain DNull \<and> e \<noteq> Plain DUndefined \<and>
              \<not> has e ''stop'' \<and> dependsOn (config s) name = Inr deps \<longrightarrow>
            stop (Some name) s =
              Return (if field (services s) name = DNull then s
                      else s\<lparr>services := AList.update name DNull (services s)\<rparr>)"
  proof (intro allI impI)
    fix e deps
    assume h: "map_of (fns s) name = Some e \<and> e \<noteq> Plain DNull \<and> e \<noteq> Plain DUndefined \<and>
              \<not> has e ''stop'' \<and> dependsOn (config s) name = Inr deps"
    then have "getProp (map_of (fns s) name) ''stop'' = Inr DUndefined"
      by (simp add: getProp_absent)
    with h show "stop (Some name) s =
        Return (if field (services s) name = DNull then s
                else s\<lparr>services := AList.update name DNull (services s)\<rparr>)"
      by (simp add: stopService_def)
  qed
qed

theorem stop_without_entry_witness:
  "plain_names (keys (config (test_sys\<lparr>fns := []\<rparr>))) \<and> plain_name ''x'' \<and>
   map_of (fns (test_sys\<lparr>fns := []\<rparr>)) ''x'' = None \<and>
   field (services (test_sys\<lparr>fns := []\<rparr>)) ''x'' = DNull \<and>
   stop (Some ''x'') (test_sys\<lparr>fns := []\<rparr>) = Throw TypeError (test_sys\<lparr>fns := []\<rparr>) \<and>
   map_of (fns test_sys) ''x'' = Some (Record [(''start'', DFn startX)]) \<and>
   stop (Some ''x'') test_sys = Return test_sys"
proof -
  have p: "plain_names (keys (config (test_sys\<lparr>fns := []\<rparr>)))"
    "plain_names (keys (config test_sys))"
    using plain_names_test_conf by (simp_all add: test_sys_def)
  have 1: "map_of (fns (test_sys\<lparr>fns := []\<rparr>)) ''x'' = None" by simp
  have 2: "field (services (test_sys\<lparr>fns := []\<rparr>)) ''x'' = DNull"
    by (simp add: test_sys_def field_def)
  have 3: "map_of (fns test_sys) ''x'' = Some (Record [(''start'', DFn startX)])"
    by (simp add: test_sys_def test_fns_def)
  have 4: "dependsOn (config test_sys) ''x'' = Inr (DArr [])"
    by (simp add: test_sys_def dependsOn_test_conf)
  have 5: "field (services test_sys) ''x'' = DNull" by (simp add: test_sys_def field_def)
  from stop_without_entry[OF p(1) plain_test_names(1)] 1
  have a: "stop (Some ''x'') (test_sys\<lparr>fns := []\<rparr>) = Throw TypeError (test_sys\<lparr>fns := []\<rparr>)"
    by blast
  from stop_without_entry[OF p(2) plain_test_names(1)] 3 4 5
  have b: "stop (Some ''x'') test_sys = Return test_sys"
    by (simp add: keys_def)
  from p(1) plain_test_names(1) 1 2 3 a b show ?thesis by blast
qed

theorem stop_without_entry_counterexample:
  "System test_conf [(''x'', Plain (DNum 5))] False 0 = Inr primitive_sys \<and>
   map_of (fns primitive_sys) ''x'' = Some (Plain (DNum 5)) \<and>
   \<not> isObject (Plain (DNum 5) :: nat callback entry) \<and>
   field (services primitive_sys) ''x'' = DNull \<and>
   stop (Some ''x'') primitive_sys = Return primitive_sys"
proof -
  have "System test_conf [(''x'', Plain (DNum 5))] False 0 = Inr primitive_sys"
    using build_test[of "[(''x'', Plain (DNum 5))]"] by (simp add: System_def primitive_sys_def)
  moreover have "stop (Some ''x'') primitive_sys = Return primitive_sys"
    by (simp add: primitive_sys_def test_sys_def stopService_def dependsOn_test_conf field_def)
  moreover have "field (services primitive_sys) ''x'' = DNull"
    by (simp add: primitive_sys_def test_sys_def field_def)
  ultimately show ?thesis by (simp add: primitive_sys_def)
qed

section \<open>start\<close>

subsection \<open>The function and the relation\<close>

lemma forEachStart_starts_each:
  assumes "\<And>d s r. f d s = Some r \<Longrightarrow> starts (Some d) s r"
    and "forEachStart f ds s = Some r"
  shows "starts_each ds s r"
  using assms(2)
proof (induction ds arbitrary: s)
  case Nil
  then show ?case by (auto intro: starts_starts_each.intros)
next
  case (Cons d ds)
  from Cons.prems obtain r1 where r1: "f d s = Some r1" by (auto split: option.splits)
  show ?case
  proof (cases r1)
    case (Return s')
    with Cons.prems r1 have "forEachStart f ds s' = Some r" by simp
    with Cons.IH have "starts_each ds s' r" .
    with assms(1)[OF r1] Return show ?thesis by (auto intro: each_cons)
  next
    case (Throw err s')
    with Cons.prems r1 have "r = Throw err s'" by simp
    with assms(1)[OF r1] Throw show ?thesis by (auto intro: each_throw)
  qed
qed

lemma start_starts: "start n a (s :: 'w system) = Some r \<Longrightarrow> starts a s r"
proof (induction n arbitrary: a s r)
  case 0
  then show ?case by simp
next
  case (Suc n)
  have each: "forEachStart (\<lambda>d. start n (Some d)) ds t = Some q \<Longrightarrow> starts_each ds t q"
    for ds and t :: "'w system" and q
    by (rule forEachStart_starts_each[where f = "\<lambda>d. start n (Some d)"]) (auto intro: Suc.IH)
  show ?case
  proof (cases a)
    case None
    with Suc.prems each[of "order s" s r] show ?thesis by (auto intro: bulk)
  next
    case (Some x)
    show ?thesis
    proof (cases "dependsOn (config s) x")
      case (Inl err)
      with Suc.prems Some show ?thesis by (auto intro: deps_error)
    next
      case (Inr d)
      show ?thesis
      proof (cases "\<exists>ds. d = DArr ds")
        case False
        with Inr have "starts (Some x) s (Throw TypeError s)" by (auto intro: deps_not_array)
        moreover from False Inr Suc.prems Some have "r = Throw TypeError s"
          by (cases d) auto
        ultimately show ?thesis using Some by simp
      next
        case True
        then obtain ds where d: "d = DArr ds" by blast
        with Inr Suc.prems Some obtain q where
          q: "forEachStart (\<lambda>d. start n (Some d)) ds s = Some q"
          by (auto split: option.splits)
        show ?thesis
        proof (cases q)
          case (Return s')
          with q Inr d Suc.prems Some have "r = startService x (DArr ds) s'" by simp
          with each[OF q] Return Inr d Some show ?thesis by (auto intro: deps_return)
        next
          case (Throw err s')
          with q Inr d Suc.prems Some have "r = Throw err s'" by simp
          with each[OF q] Throw Inr d Some show ?thesis by (auto intro: deps_throw)
        qed
      qed
    qed
  qed
qed

subsection \<open>What one guarded assignment does\<close>

lemma startService_cases:
  obtains (idle) "field (services s) x \<noteq> DNull" "startService x deps s = Return s"
  | (fault) err where "field (services s) x = DNull" "startService x deps s = Throw err s"
      "\<forall>v. err \<noteq> Thrown v"
  | (threw) f dv v w' where "field (services s) x = DNull"
      "getProp (map_of (fns s) x) ''start'' = Inr (DFn f)"
      "collectDeps deps (services s) = Inr dv"
      "f (AConfig (config s)) dv (world s) = (Inl v, w')"
      "startService x deps s =
         Throw (Thrown v) (s\<lparr>world := w',
             events := events s @ [StartCalled x (config s) dv (Inl v)]\<rparr>)"
  | (stored) f dv v w' where "field (services s) x = DNull"
      "getProp (map_of (fns s) x) ''start'' = Inr (DFn f)"
      "collectDeps deps (services s) = Inr dv"
      "f (AConfig (config s)) dv (world s) = (Inr v, w')"
      "startService x deps s =
         Return (s\<lparr>world := w',
             events := events s @ [StartCalled x (config s) dv (Inr v)],
             services := AList.update x v (services s)\<rparr>)"
proof (cases "field (services s) x = DNull")
  case False
  then show ?thesis using idle by (simp add: startService_def)
next
  case null: True
  show ?thesis
  proof (cases "getProp (map_of (fns s) x) ''start''")
    case (Inl err)
    from Inl have "err = TypeError"
      by (cases "(map_of (fns s) x, ''start'')" rule: getProp.cases) auto
    with Inl null show ?thesis using fault[of err] by (simp add: startService_def)
  next
    case (Inr m)
    show ?thesis
    proof (cases "\<exists>f. m = DFn f")
      case False
      with Inr null have "startService x deps s = Throw TypeError s"
        by (cases m) (auto simp: startService_def)
      with null show ?thesis using fault[of TypeError] by simp
    next
      case True
      then obtain f where m: "m = DFn f" by blast
      show ?thesis
      proof (cases "collectDeps deps (services s)")
        case (Inl err)
        then have "err = TypeError" by (auto simp: collectDeps_def split: jsdata.splits)
        with Inl Inr m null show ?thesis using fault[of err] by (simp add: startService_def)
      next
        case dv: (Inr dv)
        obtain r w' where call: "f (AConfig (config s)) dv (world s) = (r, w')"
          by (cases "f (AConfig (config s)) dv (world s)")
        show ?thesis
        proof (cases r)
          case (Inl v)
          with call dv Inr m null show ?thesis
            using threw[of f dv v w'] by (simp add: startService_def)
        next
          case (Inr v)
          with call dv \<open>getProp (map_of (fns s) x) ''start'' = Inr m\<close> m null show ?thesis
            using stored[of f dv v w'] by (simp add: startService_def)
        qed
      qed
    qed
  qed
qed

subsection \<open>What a call of start leaves unchanged\<close>

lemma startService_frame:
  "config (state_of (startService x deps s)) = config s"
  "fns (state_of (startService x deps s)) = fns s"
  "order (state_of (startService x deps s)) = order s"
  by (rule startService_cases[where s = s and x = x and deps = deps]; simp)+

lemma update_present: "map_of al k = Some v \<Longrightarrow> map fst (AList.update k v' al) = map fst al"
  by (induction al) (auto split: if_splits)

lemma field_null_present: "field al k = DNull \<Longrightarrow> \<exists>v. map_of al k = Some v"
  by (auto simp: field_def split: option.splits)

lemma startService_services:
  "field (services s) k \<noteq> DNull \<Longrightarrow>
     field (services (state_of (startService x deps s))) k = field (services s) k"
  "k \<noteq> x \<Longrightarrow> field (services (state_of (startService x deps s))) k = field (services s) k"
  "map fst (services (state_of (startService x deps s))) = map fst (services s)"
proof -
  show "field (services s) k \<noteq> DNull \<Longrightarrow>
     field (services (state_of (startService x deps s))) k = field (services s) k"
    by (rule startService_cases[where s = s and x = x and deps = deps]) (auto simp: field_update)
  show "k \<noteq> x \<Longrightarrow> field (services (state_of (startService x deps s))) k = field (services s) k"
    by (rule startService_cases[where s = s and x = x and deps = deps]) (auto simp: field_update)
  show "map fst (services (state_of (startService x deps s))) = map fst (services s)"
    by (rule startService_cases[where s = s and x = x and deps = deps])
       (auto dest!: field_null_present simp: update_present)
qed

lemma starts_frame:
  fixes s :: "'w system"
  shows "starts a s r \<Longrightarrow>
           config (state_of r) = config s \<and> fns (state_of r) = fns s \<and>
           order (state_of r) = order s \<and>
           map fst (services (state_of r)) = map fst (services s)"
    and "starts_each ds s r \<Longrightarrow>
           config (state_of r) = config s \<and> fns (state_of r) = fns s \<and>
           order (state_of r) = order s \<and>
           map fst (services (state_of r)) = map fst (services s)"
  by (induction rule: starts_starts_each.inducts)
     (simp_all add: startService_frame startService_services)

lemma starts_mono:
  fixes s :: "'w system"
  shows "starts a s r \<Longrightarrow>
           \<forall>k. field (services s) k \<noteq> DNull \<longrightarrow>
                field (services (state_of r)) k = field (services s) k"
    and "starts_each ds s r \<Longrightarrow>
           \<forall>k. field (services s) k \<noteq> DNull \<longrightarrow>
                field (services (state_of r)) k = field (services s) k"
  by (induction rule: starts_starts_each.inducts)
     (simp_all add: startService_services)

text \<open>The events that a call adds to the trace.\<close>

lemma startService_events:
  "\<exists>evs. events (state_of (startService x deps s)) = events s @ evs"
  by (rule startService_cases[where s = s and x = x and deps = deps]) auto

lemma starts_events:
  fixes s :: "'w system"
  shows "starts a s r \<Longrightarrow> \<exists>evs. events (state_of r) = events s @ evs"
    and "starts_each ds s r \<Longrightarrow> \<exists>evs. events (state_of r) = events s @ evs"
proof (induction rule: starts_starts_each.inducts)
  case (deps_return s x ds s')
  then obtain evs where "events s' = events s @ evs" by auto
  moreover obtain evs' where "events (state_of (startService x (DArr ds) s')) = events s' @ evs'"
    using startService_events by blast
  ultimately show ?case by simp
qed auto

subsection \<open>A service that was started holds a value\<close>

lemma getProp_fn:
  "getProp e k = Inr (DFn f) \<Longrightarrow> \<exists>rec. e = Some (Record rec) \<and> field rec k = DFn f"
  by (cases "(e, k)" rule: getProp.cases) auto

lemma startService_nonnull:
  assumes "returns_nonnull (config s) (fns s)"
    and "startService x deps s = Return s'"
  shows "field (services s') x \<noteq> DNull"
proof (cases rule: startService_cases[where s = s and x = x and deps = deps])
  case idle
  with assms(2) show ?thesis by simp
next
  case (fault err)
  with assms(2) show ?thesis by simp
next
  case (threw f dv v w')
  with assms(2) show ?thesis by simp
next
  case (stored f dv v w')
  from getProp_fn[OF stored(2)] obtain rec where
    "map_of (fns s) x = Some (Record rec)" "field rec ''start'' = DFn f" by blast
  with assms(1) have "fst (f (AConfig (config s)) dv (world s)) \<noteq> Inr DNull"
    unfolding returns_nonnull_def by blast
  with stored(4) have "v \<noteq> DNull" by auto
  with stored(5) assms(2) show ?thesis by (auto simp: field_update)
qed


subsection \<open>The dependency values that a start callback receives\<close>




subsection \<open>The run of the test suite\<close>

lemma start_test_sum:
  "start 3 (Some ''sum'') test_sys = Some (Return started_sys)"
  by (simp add: eval_nat_numeral test_sys_def started_sys_def startService_def dependsOn_def
      test_fns_def field_def collectDeps_def startX_def startY_def startSum_def config_val_def
      test_conf_def)


lemma start_started_sum:
  "start 3 (Some ''sum'') started_sys = Some (Return started_sys)"
  by (simp add: eval_nat_numeral started_sys_def startService_def dependsOn_def
      test_fns_def field_def test_conf_def)

lemma startSum_nonnull: "fst (startSum a dv w) \<noteq> Inr DNull"
  by (simp add: startSum_def split: jsdata.splits)

lemma returns_nonnull_test: "returns_nonnull test_conf test_fns"
  unfolding returns_nonnull_def
proof (intro allI impI)
  fix k rec f dv and w :: nat
  assume h: "map_of test_fns k = Some (Record rec) \<and> field rec ''start'' = DFn f"
  then have "f = startX \<or> f = startY \<or> f = startSum"
    by (auto simp: test_fns_def field_def split: if_splits)
  then show "fst (f (AConfig test_conf) dv w) \<noteq> Inr DNull"
    by (auto simp: startSum_nonnull startX_def startY_def config_val_def test_conf_def field_def)
qed



subsection \<open>A start callback that throws\<close>

lemma starts_thrown:
  fixes s :: "'w system"
  shows "starts a s r \<Longrightarrow>
           \<exists>evs. events (state_of r) = events s @ evs \<and> thrown_last evs r \<and>
                 started_kept evs (services (state_of r))"
    and "starts_each ds s r \<Longrightarrow>
           \<exists>evs. events (state_of r) = events s @ evs \<and> thrown_last evs r \<and>
                 started_kept evs (services (state_of r))"
proof (induction rule: starts_starts_each.inducts)
  case (each_nil s)
  then show ?case by (simp add: thrown_last_def started_kept_def)
next
  case (each_throw d s err s' ds)
  then show ?case by simp
next
  case (each_cons d s s' ds r)
  from each_cons.IH(1) obtain evs1 where
    1: "events s' = events s @ evs1" "thrown_last evs1 (Return s')" "started_kept evs1 (services s')"
    by auto
  from each_cons.IH(2) obtain evs2 where
    2: "events (state_of r) = events s' @ evs2" "thrown_last evs2 r"
       "started_kept evs2 (services (state_of r))"
    by auto
  from 1(2) have none: "StartCalled x c dv (Inl v) \<notin> set evs1" for x c dv v
    by (auto simp: thrown_last_def)
  have t: "thrown_last (evs1 @ evs2) r"
    unfolding thrown_last_def
  proof (intro allI impI)
    fix x c dv v
    assume "StartCalled x c dv (Inl v) \<in> set (evs1 @ evs2)"
    with none have in2: "StartCalled x c dv (Inl v) \<in> set evs2" by auto
    then have "evs2 \<noteq> []" by auto
    then have "last (evs1 @ evs2) = last evs2" by simp
    with 2(2) in2 show "r = Throw (Thrown v) (state_of r) \<and>
        last (evs1 @ evs2) = StartCalled x c dv (Inl v) \<and>
        field (services (state_of r)) x = DNull"
      by (simp add: thrown_last_def)
  qed
  have k: "started_kept (evs1 @ evs2) (services (state_of r))"
    unfolding started_kept_def
  proof (intro allI impI)
    fix k c dv v
    assume h: "StartCalled k c dv (Inr v) \<in> set (evs1 @ evs2) \<and> v \<noteq> DNull"
    show "field (services (state_of r)) k = v"
    proof (cases "StartCalled k c dv (Inr v) \<in> set evs1")
      case True
      with 1(3) h have "field (services s') k = v" by (auto simp: started_kept_def)
      with h starts_mono(2)[OF each_cons.hyps(2)] show ?thesis by auto
    next
      case False
      with h 2(3) show ?thesis by (auto simp: started_kept_def)
    qed
  qed
  from 1(1) 2(1) t k show ?case by auto
next
  case (deps_error s x err)
  then show ?case by (simp add: thrown_last_def started_kept_def)
next
  case (deps_not_array s x d)
  then show ?case by (simp add: thrown_last_def started_kept_def)
next
  case (deps_throw s x ds err s')
  then show ?case by simp
next
  case (deps_return s x ds s')
  from deps_return.IH obtain evs1 where
    1: "events s' = events s @ evs1" "thrown_last evs1 (Return s')" "started_kept evs1 (services s')"
    by auto
  from 1(2) have none: "StartCalled x c dv (Inl v) \<notin> set evs1" for x c dv v
    by (auto simp: thrown_last_def)
  show ?case
  proof (cases rule: startService_cases[where s = s' and x = x and deps = "DArr ds"])
    case idle
    with 1 show ?thesis by auto
  next
    case (fault err)
    from none have "thrown_last evs1 (Throw err s')" by (simp add: thrown_last_def)
    with fault 1 show ?thesis by auto
  next
    case (threw f dv v w')
    let ?ev = "StartCalled x (config s') dv (Inl v)"
    let ?s = "s'\<lparr>world := w', events := events s' @ [?ev]\<rparr>"
    have "thrown_last (evs1 @ [?ev]) (Throw (Thrown v) ?s)"
      using none threw(1) by (auto simp: thrown_last_def)
    moreover have "started_kept (evs1 @ [?ev]) (services ?s)"
      using 1(3) by (auto simp: started_kept_def)
    moreover have "events ?s = events s @ (evs1 @ [?ev])" using 1(1) by simp
    ultimately show ?thesis using threw(5) by (metis state_of.simps(2))
  next
    case (stored f dv v w')
    let ?ev = "StartCalled x (config s') dv (Inr v)"
    let ?s = "s'\<lparr>world := w', events := events s' @ [?ev],
                 services := AList.update x v (services s')\<rparr>"
    have "thrown_last (evs1 @ [?ev]) (Return ?s)"
      using none by (auto simp: thrown_last_def)
    moreover have "started_kept (evs1 @ [?ev]) (services ?s)"
      using 1(3) stored(1) by (auto simp: started_kept_def field_update)
    moreover have "events ?s = events s @ (evs1 @ [?ev])" using 1(1) by simp
    ultimately show ?thesis using stored(5) by (metis state_of.simps(1))
  qed
next
  case (bulk s r)
  then show ?case by simp
qed

text \<open>
  C6. If during a start operation that ends the start callback of a service \<open>x\<close> throws
  the value \<open>v\<close>, then the operation ends by throwing that same value, the throwing call
  is the last callback call of the operation, the value of \<open>x\<close> is still null, every
  service that held a value before the operation holds the same value, and every service
  whose start callback returned a value other than null during the operation holds
  that value. The outcome carries the System in that state. (The operation ends whenever
  the dependencies nest less deep than the bound of the depth: lemma \<open>start_ends\<close>.)
\<close>

theorem start_callback_throws:
  assumes "start n a s = Some r"
    and "events (state_of r) = events s @ evs"
    and "StartCalled x c dv (Inl v) \<in> set evs"
  shows "r = Throw (Thrown v) (state_of r) \<and>
         last evs = StartCalled x c dv (Inl v) \<and>
         field (services (state_of r)) x = DNull \<and>
         (\<forall>k. field (services s) k \<noteq> DNull \<longrightarrow>
              field (services (state_of r)) k = field (services s) k) \<and>
         (\<forall>k c' dv' v'. StartCalled k c' dv' (Inr v') \<in> set evs \<and> v' \<noteq> DNull \<longrightarrow>
              field (services (state_of r)) k = v')"
proof -
  from starts_thrown(1)[OF start_starts[OF assms(1)]] obtain evs' where
    "events (state_of r) = events s @ evs'" "thrown_last evs' r"
    "started_kept evs' (services (state_of r))" by blast
  with assms(2) have "thrown_last evs r" "started_kept evs (services (state_of r))" by simp_all
  with assms(3) starts_mono(1)[OF start_starts[OF assms(1)]] show ?thesis
    unfolding thrown_last_def started_kept_def by blast
qed

theorem start_callback_throws_witness:
  "start 3 (Some ''sum'') failing_sys = Some (Throw (Thrown (DStr ''boom'')) failed_sys) \<and>
   events failed_sys = events failing_sys @ events failed_sys \<and>
   StartCalled ''sum'' test_conf [(''x'', DNum 1), (''y'', DNum 2)] (Inl (DStr ''boom''))
     \<in> set (events failed_sys) \<and>
   field (services failed_sys) ''sum'' = DNull \<and>
   field (services failed_sys) ''x'' = DNum 1 \<and>
   field (services failed_sys) ''y'' = DNum 2"
proof -
  have 1: "start 3 (Some ''sum'') failing_sys = Some (Throw (Thrown (DStr ''boom'')) failed_sys)"
    by (simp add: eval_nat_numeral failing_sys_def failed_sys_def test_sys_def startService_def
        dependsOn_def field_def collectDeps_def startX_def startY_def startFails_def
        config_val_def test_conf_def)
  have 2: "events (state_of (Throw (Thrown (DStr ''boom'')) failed_sys))
             = events failing_sys @ events failed_sys"
    by (simp add: failing_sys_def failed_sys_def test_sys_def)
  have 3: "StartCalled ''sum'' test_conf [(''x'', DNum 1), (''y'', DNum 2)] (Inl (DStr ''boom''))
     \<in> set (events failed_sys)"
    by (simp add: failed_sys_def)
  have 4: "StartCalled ''x'' test_conf [] (Inr (DNum 1)) \<in> set (events failed_sys) \<and>
           DNum 1 \<noteq> (DNull :: data)"
    "StartCalled ''y'' test_conf [(''x'', DNum 1)] (Inr (DNum 2)) \<in> set (events failed_sys) \<and>
           DNum 2 \<noteq> (DNull :: data)"
    by (simp_all add: failed_sys_def)
  from start_callback_throws[OF 1 2 3] 4
  have "field (services failed_sys) ''sum'' = DNull \<and>
        field (services failed_sys) ''x'' = DNum 1 \<and> field (services failed_sys) ''y'' = DNum 2"
    by (metis state_of.simps(2))
  with 1 2 3 show ?thesis by simp
qed

subsection \<open>Starting twice\<close>

lemma start_Return_elim:
  assumes "start n (Some x) s = Some (Return s')"
  obtains m ds sk where "n = Suc m" "dependsOn (config s) x = Inr (DArr ds)"
    "forEachStart (\<lambda>d. start m (Some d)) ds s = Some (Return sk)"
    "startService x (DArr ds) sk = Return s'"
proof (cases n)
  case 0
  with assms show ?thesis by simp
next
  case (Suc m)
  show ?thesis
  proof (cases "dependsOn (config s) x")
    case (Inl err)
    with assms Suc show ?thesis by simp
  next
    case (Inr d)
    show ?thesis
    proof (cases "\<exists>ds. d = DArr ds")
      case False
      with assms Suc Inr show ?thesis by (cases d) auto
    next
      case True
      then obtain ds where d: "d = DArr ds" by blast
      with assms Suc Inr obtain sk where
        "forEachStart (\<lambda>d. start m (Some d)) ds s = Some (Return sk)"
        "startService x (DArr ds) sk = Return s'"
        by (auto split: option.splits outcome.splits)
      with Suc Inr d that show ?thesis by blast
    qed
  qed
qed

lemma forEachStart_starts:
  "forEachStart (\<lambda>d. start m (Some d)) ds (s :: 'w system) = Some r \<Longrightarrow> starts_each ds s r"
  by (rule forEachStart_starts_each[where f = "\<lambda>d. start m (Some d)"]) (auto intro: start_starts)

lemma forEachStart_again:
  fixes u t :: "'w system"
  assumes IH: "\<And>d (u :: 'w system) u' (t :: 'w system).
        \<lbrakk>start m (Some d) u = Some (Return u'); returns_nonnull (config u) (fns u);
         config t = config u;
         \<forall>k. field (services u') k \<noteq> DNull \<longrightarrow> field (services t) k \<noteq> DNull\<rbrakk>
        \<Longrightarrow> start m (Some d) t = Some (Return t)"
    and "forEachStart (\<lambda>d. start m (Some d)) ds u = Some (Return u')"
    and "returns_nonnull (config u) (fns u)"
    and "config t = config u"
    and "\<forall>k. field (services u') k \<noteq> DNull \<longrightarrow> field (services t) k \<noteq> DNull"
  shows "forEachStart (\<lambda>d. start m (Some d)) ds t = Some (Return t)"
  using assms(2-5)
proof (induction ds arbitrary: u)
  case Nil
  then show ?case by simp
next
  case (Cons d ds)
  from Cons.prems(1) obtain u1 where
    1: "start m (Some d) u = Some (Return u1)"
       "forEachStart (\<lambda>d. start m (Some d)) ds u1 = Some (Return u')"
    by (auto split: option.splits outcome.splits)
  from starts_frame(1)[OF start_starts[OF 1(1)]] Cons.prems(2,3)
  have fr: "returns_nonnull (config u1) (fns u1)" "config t = config u1" by simp_all
  from starts_mono(2)[OF forEachStart_starts[OF 1(2)]]
  have "\<forall>k. field (services u1) k \<noteq> DNull \<longrightarrow> field (services u') k \<noteq> DNull" by simp
  with Cons.prems(4)
  have sub: "\<forall>k. field (services u1) k \<noteq> DNull \<longrightarrow> field (services t) k \<noteq> DNull" by blast
  from IH[OF 1(1) Cons.prems(2,3) sub]
  have "start m (Some d) t = Some (Return t)" .
  moreover from Cons.IH[OF 1(2) fr Cons.prems(4)]
  have "forEachStart (\<lambda>d. start m (Some d)) ds t = Some (Return t)" .
  ultimately show ?case by simp
qed

lemma start_again:
  fixes s t :: "'w system"
  assumes "start n (Some x) s = Some (Return s')"
    and "returns_nonnull (config s) (fns s)"
    and "config t = config s"
    and "\<forall>k. field (services s') k \<noteq> DNull \<longrightarrow> field (services t) k \<noteq> DNull"
  shows "start n (Some x) t = Some (Return t)"
  using assms
proof (induction n arbitrary: x s s' t)
  case 0
  then show ?case by simp
next
  case (Suc n)
  from Suc.prems(1) obtain ds sk where
    e: "dependsOn (config s) x = Inr (DArr ds)"
       "forEachStart (\<lambda>d. start n (Some d)) ds s = Some (Return sk)"
       "startService x (DArr ds) sk = Return s'"
    by (elim start_Return_elim) auto
  from starts_frame(2)[OF forEachStart_starts[OF e(2)]] Suc.prems(2)
  have nn: "returns_nonnull (config sk) (fns sk)" by simp
  have "\<forall>k. field (services sk) k \<noteq> DNull \<longrightarrow> field (services s') k \<noteq> DNull"
    using startService_services(1)[of sk _ x "DArr ds"] e(3) by simp
  with Suc.prems(4)
  have sub: "\<forall>k. field (services sk) k \<noteq> DNull \<longrightarrow> field (services t) k \<noteq> DNull" by blast
  have loop: "forEachStart (\<lambda>d. start n (Some d)) ds t = Some (Return t)"
    by (rule forEachStart_again[OF Suc.IH e(2) Suc.prems(2,3) sub])
  from startService_nonnull[OF nn e(3)] Suc.prems(4)
  have "field (services t) x \<noteq> DNull" by blast
  then have "startService x (DArr ds) t = Return t" by (simp add: startService_def)
  with loop e(1) Suc.prems(3) show ?case by simp
qed

subsection \<open>How often a start callback is called\<close>

lemma within_Suc: "within conf n x \<Longrightarrow> within conf (Suc n) x"
proof (induction n arbitrary: x)
  case 0
  then show ?case by simp
next
  case (Suc n)
  from Suc.prems obtain ds where ds: "dependsOn conf x = Inr (DArr ds)"
    "\<forall>d \<in> set ds. within conf n d"
    by (auto split: sum.splits jsdata.splits)
  with Suc.IH have "\<forall>d \<in> set ds. within conf (Suc n) d" by blast
  with ds(1) show ?case by simp
qed

lemma within_le: "within conf n x \<Longrightarrow> n \<le> m \<Longrightarrow> within conf m x"
  by (induction m) (auto simp: le_Suc_eq simp del: within.simps intro: within_Suc)

lemma within_array:
  "dependsOn conf x = Inr (DArr ds) \<Longrightarrow> within conf (Suc k) x = (\<forall>d \<in> set ds. within conf k d)"
  by simp

lemma within_0: "\<not> within conf 0 x"
  by simp

declare within.simps [simp del]

lemma starts_within:
  fixes s :: "'w system"
  shows "starts a s r \<Longrightarrow>
           \<forall>x s'. a = Some x \<and> r = Return s' \<longrightarrow> (\<exists>k. within (config s) k x)"
    and "starts_each ds s r \<Longrightarrow>
           \<forall>s'. r = Return s' \<longrightarrow> (\<exists>k. \<forall>d \<in> set ds. within (config s) k d)"
proof (induction rule: starts_starts_each.inducts)
  case (each_cons d s s' ds r)
  show ?case
  proof (intro allI impI)
    fix s'' assume r: "r = Return s''"
    from each_cons.IH(1) obtain k1 where k1: "within (config s) k1 d" by auto
    from each_cons.IH(2) r starts_frame(1)[OF each_cons.hyps(1)]
    obtain k2 where k2: "\<forall>d \<in> set ds. within (config s) k2 d" by auto
    from k1 k2 have "\<forall>e \<in> set (d # ds). within (config s) (max k1 k2) e"
      by (auto intro: within_le)
    then show "\<exists>k. \<forall>e \<in> set (d # ds). within (config s) k e" by blast
  qed
next
  case (deps_return s x ds s')
  from deps_return.IH obtain k where "\<forall>d \<in> set ds. within (config s) k d" by auto
  with deps_return.hyps(1) have "within (config s) (Suc k) x" by (simp add: within_array)
  then show ?case by blast
qed simp_all

lemma start_calls_append:
  "start_calls x (evs @ evs') = start_calls x evs + start_calls x evs'"
  by (simp add: start_calls_def)

lemma startService_calls:
  "x \<noteq> y \<Longrightarrow>
     start_calls x (events (state_of (startService y deps s))) = start_calls x (events s)"
  "field (services s) y \<noteq> DNull \<Longrightarrow>
     start_calls x (events (state_of (startService y deps s))) = start_calls x (events s)"
  "field (services s) y = DNull \<Longrightarrow> startService y deps s = Return s' \<Longrightarrow>
     start_calls y (events s') = Suc (start_calls y (events s))"
proof -
  show "x \<noteq> y \<Longrightarrow>
     start_calls x (events (state_of (startService y deps s))) = start_calls x (events s)"
    by (rule startService_cases[where s = s and x = y and deps = deps])
       (auto simp: start_calls_def)
  show "field (services s) y \<noteq> DNull \<Longrightarrow>
     start_calls x (events (state_of (startService y deps s))) = start_calls x (events s)"
    by (simp add: startService_def)
  show "field (services s) y = DNull \<Longrightarrow> startService y deps s = Return s' \<Longrightarrow>
     start_calls y (events s') = Suc (start_calls y (events s))"
    by (rule startService_cases[where s = s and x = y and deps = deps])
       (auto simp: start_calls_def)
qed

lemma starts_outside:
  fixes s :: "'w system"
  shows "starts a s r \<Longrightarrow>
           \<forall>k x y. a = Some y \<and> within (config s) k y \<and> \<not> within (config s) k x \<longrightarrow>
             start_calls x (events (state_of r)) = start_calls x (events s) \<and>
             field (services (state_of r)) x = field (services s) x"
    and "starts_each ds s r \<Longrightarrow>
           \<forall>k x. (\<forall>d \<in> set ds. within (config s) k d) \<and> \<not> within (config s) k x \<longrightarrow>
             start_calls x (events (state_of r)) = start_calls x (events s) \<and>
             field (services (state_of r)) x = field (services s) x"
proof (induction rule: starts_starts_each.inducts)
  case (each_nil s)
  show ?case by simp
next
  case (each_throw d s err s' ds)
  show ?case
  proof (intro allI impI)
    fix k x
    assume h: "(\<forall>e \<in> set (d # ds). within (config s) k e) \<and> \<not> within (config s) k x"
    then have "within (config s) k d" "\<not> within (config s) k x" by simp_all
    with each_throw.IH[rule_format, of d k x]
    show "start_calls x (events (state_of (Throw err s'))) = start_calls x (events s) \<and>
       field (services (state_of (Throw err s'))) x = field (services s) x" by simp
  qed
next
  case (each_cons d s s' ds r)
  from starts_frame(1)[OF each_cons.hyps(1)] have c: "config s' = config s" by simp
  show ?case
  proof (intro allI impI)
    fix k x
    assume h: "(\<forall>e \<in> set (d # ds). within (config s) k e) \<and> \<not> within (config s) k x"
    then have h': "within (config s) k d" "\<forall>e \<in> set ds. within (config s') k e"
      "\<not> within (config s) k x" "\<not> within (config s') k x" using c by simp_all
    from each_cons.IH(1)[rule_format, of d k x] h'(1,3) have
      1: "start_calls x (events s') = start_calls x (events s)"
         "field (services s') x = field (services s) x" by simp_all
    from each_cons.IH(2)[rule_format, of k x] h'(2,4) have
      2: "start_calls x (events (state_of r)) = start_calls x (events s')"
         "field (services (state_of r)) x = field (services s') x" by simp_all
    from 1 2 show "start_calls x (events (state_of r)) = start_calls x (events s) \<and>
       field (services (state_of r)) x = field (services s) x" by simp
  qed
next
  case (deps_error s x err)
  show ?case by simp
next
  case (deps_not_array s x d)
  show ?case by simp
next
  case (deps_throw s y ds err s')
  show ?case
  proof (intro allI impI)
    fix k x y'
    assume h: "Some y = Some y' \<and> within (config s) k y' \<and> \<not> within (config s) k x"
    then have hy: "within (config s) k y" and hx: "\<not> within (config s) k x" by simp_all
    from hy obtain k' where k': "k = Suc k'" by (cases k) (auto simp: within_0)
    with hy deps_throw.hyps(1) have a: "\<forall>d \<in> set ds. within (config s) k' d"
      by (simp add: within_array)
    from hx k' have b: "\<not> within (config s) k' x" by (auto dest: within_Suc)
    from deps_throw.IH[rule_format, of k' x] a b
    show "start_calls x (events (state_of (Throw err s'))) = start_calls x (events s) \<and>
       field (services (state_of (Throw err s'))) x = field (services s) x"
      by simp
  qed
next
  case (deps_return s y ds s')
  show ?case
  proof (intro allI impI)
    fix k x y'
    assume h: "Some y = Some y' \<and> within (config s) k y' \<and> \<not> within (config s) k x"
    then have hy: "within (config s) k y" and hx: "\<not> within (config s) k x" by simp_all
    from hy obtain k' where k': "k = Suc k'" by (cases k) (auto simp: within_0)
    with hy deps_return.hyps(1) have a: "\<forall>d \<in> set ds. within (config s) k' d"
      by (simp add: within_array)
    from hx k' have b: "\<not> within (config s) k' x" by (auto dest: within_Suc)
    from deps_return.IH[rule_format, of k' x] a b
    have 1: "start_calls x (events s') = start_calls x (events s)"
       "field (services s') x = field (services s) x"
      by simp_all
    from hy hx have "x \<noteq> y" by auto
    with 1 show "start_calls x (events (state_of (startService y (DArr ds) s')))
        = start_calls x (events s) \<and>
       field (services (state_of (startService y (DArr ds) s'))) x = field (services s) x"
      by (simp add: startService_calls(1) startService_services(2))
  qed
next
  case (bulk s r)
  show ?case by simp
qed

lemma least_depth:
  assumes "\<forall>d \<in> set ds. within conf k d" and "dependsOn conf x = Inr (DArr ds)"
  shows "\<exists>k. (\<forall>d \<in> set ds. within conf k d) \<and> \<not> within conf k x"
proof -
  let ?P = "\<lambda>k. \<forall>d \<in> set ds. within conf k d"
  let ?k = "LEAST k. ?P k"
  from assms(1) have P: "?P ?k" by (rule LeastI)
  have "\<not> within conf ?k x"
  proof
    assume w: "within conf ?k x"
    then obtain k' where k': "?k = Suc k'" by (cases ?k) (auto simp: within_0)
    with w assms(2) have "?P k'" by (simp add: within_array)
    then have "?k \<le> k'" by (rule Least_le)
    with k' show False by simp
  qed
  with P show ?thesis by blast
qed

text \<open>
  C4, as amended. Let the start callbacks not return null, and let \<open>start(name)\<close>
  return. Then a second \<open>start(name)\<close> returns with the System exactly as the first call
  left it: no value, no callback call and nothing of the world has changed. Over the two
  calls the start callback of \<open>name\<close> is called exactly once when the service was
  stopped before the first call, and not at all when it was running.
\<close>

theorem start_idempotent:
  assumes "returns_nonnull (config s) (fns s)"
    and "start n (Some name) s = Some (Return s1)"
  shows "start n (Some name) s1 = Some (Return s1) \<and>
         start_calls name (events s1) =
           start_calls name (events s) + (if field (services s) name = DNull then 1 else 0)"
proof
  from starts_frame(1)[OF start_starts[OF assms(2)]] have "config s1 = config s" by simp
  with start_again[OF assms(2,1), of s1] show "start n (Some name) s1 = Some (Return s1)"
    by simp
next
  from assms(2) obtain m ds sk where
    e: "dependsOn (config s) name = Inr (DArr ds)"
       "forEachStart (\<lambda>d. start m (Some d)) ds s = Some (Return sk)"
       "startService name (DArr ds) sk = Return s1"
    by (elim start_Return_elim) auto
  from starts_within(2)[OF forEachStart_starts[OF e(2)]]
  obtain k0 where "\<forall>d \<in> set ds. within (config s) k0 d" by auto
  from least_depth[OF this e(1)] obtain k where
    k: "\<forall>d \<in> set ds. within (config s) k d" "\<not> within (config s) k name" by blast
  from starts_outside(2)[OF forEachStart_starts[OF e(2)], rule_format, of k name] k
  have same: "start_calls name (events sk) = start_calls name (events s)"
    "field (services sk) name = field (services s) name" by simp_all
  show "start_calls name (events s1) =
           start_calls name (events s) + (if field (services s) name = DNull then 1 else 0)"
  proof (cases "field (services s) name = DNull")
    case True
    with same(2) have "field (services sk) name = DNull" by simp
    from startService_calls(3)[OF this e(3)] same(1) True show ?thesis by simp
  next
    case False
    with same(2) have "field (services sk) name \<noteq> DNull" by simp
    from startService_calls(2)[OF this, of name "DArr ds"] e(3) same(1) False
    show ?thesis by simp
  qed
qed

theorem start_idempotent_witness:
  "returns_nonnull (config test_sys) (fns test_sys) \<and>
   start 3 (Some ''sum'') test_sys = Some (Return started_sys) \<and>
   field (services test_sys) ''sum'' = DNull \<and>
   start 3 (Some ''sum'') started_sys = Some (Return started_sys) \<and>
   start_calls ''sum'' (events started_sys) = start_calls ''sum'' (events test_sys) + 1"
proof -
  have 1: "returns_nonnull (config test_sys) (fns test_sys)"
    using returns_nonnull_test by (simp add: test_sys_def)
  have 3: "field (services test_sys) ''sum'' = DNull"
    by (simp add: test_sys_def field_def)
  from start_idempotent[OF 1 start_test_sum] 1 start_test_sum 3
  show ?thesis by simp
qed

theorem start_idempotent_counterexample:
  "start 1 (Some ''a'') null_sys = Some (Return null_sys1) \<and>
   start 1 (Some ''a'') null_sys1 = Some (Return null_sys2) \<and>
   start_calls ''a'' (events null_sys) = 0 \<and>
   start_calls ''a'' (events null_sys2) = 2"
  by (simp add: null_sys_def null_sys1_def null_sys2_def startService_def dependsOn_def
      field_def collectDeps_def startNull_def start_calls_def)

subsection \<open>Starting everything, then stopping everything\<close>


lemma within_elim:
  assumes "within conf (Suc n) x"
  obtains ds where "dependsOn conf x = Inr (DArr ds)" "\<forall>d \<in> set ds. within conf n d"
  using assms by (auto simp: within.simps split: sum.splits jsdata.splits)











subsection \<open>A call of start ends when the dependencies nest less deep than the bound\<close>

lemma forEachStart_ends:
  fixes u :: "'w system"
  assumes IH: "\<And>d (u :: 'w system). d \<in> set ds \<Longrightarrow> config u = conf \<Longrightarrow>
        \<exists>r. start m (Some d) u = Some r"
    and "config u = conf"
  shows "\<exists>r. forEachStart (\<lambda>d. start m (Some d)) ds u = Some r"
  using assms
proof (induction ds arbitrary: u)
  case Nil
  then show ?case by simp
next
  case (Cons d ds)
  from Cons.prems(1)[of d u] Cons.prems(2) obtain r1 where
    1: "start m (Some d) u = Some r1" by auto
  show ?case
  proof (cases r1)
    case (Throw err u1)
    with 1 show ?thesis by simp
  next
    case (Return u1)
    with starts_frame(1)[OF start_starts[OF 1]] Cons.prems(2) have "config u1 = conf" by simp
    then have "\<exists>r. forEachStart (\<lambda>d. start m (Some d)) ds u1 = Some r"
      by (rule Cons.IH[rotated]) (use Cons.prems(1) in auto)
    with 1 Return show ?thesis by simp
  qed
qed

lemma start_ends:
  fixes s :: "'w system"
  assumes "within (config s) n x"
  shows "\<exists>r. start n (Some x) s = Some r"
  using assms
proof (induction n arbitrary: x s)
  case 0
  then show ?case by (simp add: within_0)
next
  case (Suc n)
  from Suc.prems obtain ds where
    ds: "dependsOn (config s) x = Inr (DArr ds)" "\<forall>d \<in> set ds. within (config s) n d"
    by (rule within_elim)
  have "\<exists>r. forEachStart (\<lambda>d. start n (Some d)) ds s = Some r"
  proof (rule forEachStart_ends[where conf = "config s"])
    fix d and u :: "'w system"
    assume "d \<in> set ds" "config u = config s"
    with ds(2) Suc.IH[of u d] show "\<exists>r. start n (Some d) u = Some r" by simp
  qed simp
  then obtain r where "forEachStart (\<lambda>d. start n (Some d)) ds s = Some r" by blast
  with ds(1) show ?case by (cases r) simp_all
qed

lemma start_all_ends:
  fixes s :: "'w system"
  assumes "\<forall>x \<in> set (order s). within (config s) n x"
  shows "\<exists>r. start (Suc n) None s = Some r"
proof -
  have "\<exists>r. forEachStart (\<lambda>d. start n (Some d)) (order s) s = Some r"
  proof (rule forEachStart_ends[where conf = "config s"])
    fix d and u :: "'w system"
    assume "d \<in> set (order s)" "config u = config s"
    with assms start_ends[of u n d] show "\<exists>r. start n (Some d) u = Some r" by simp
  qed simp
  then show ?thesis by simp
qed


end
